theory Spec2Isabelle
  imports Complex_Main "HOL-Library.Word"
begin

unbundle bit_operations_syntax

section \<open>A shallow embedding of the BMP reader of \<^verbatim>\<open>tools/bmp2tiff.c\<close>\<close>

text \<open>
  The C integer types of the source are fixed-width words: \<^verbatim>\<open>unsigned char\<close> is an
  8-bit word, \<^verbatim>\<open>int16\<close> a 16-bit word, \<^verbatim>\<open>uint32\<close> and \<^verbatim>\<open>int32\<close> are 32-bit words
  (\<open>sint\<close> reads the signed ones). Addition, subtraction and multiplication wrap
  around as the C operations on \<^verbatim>\<open>uint32\<close> do.
\<close>

type_synonym uchar = "8 word"
type_synonym int16 = "16 word"
type_synonym int32 = "32 word"
type_synonym uint32 = "32 word"

subsection \<open>Header variants and the colour table entry width\<close>

datatype BMPType = BMPT_WIN4 | BMPT_WIN5 | BMPT_OS21 | BMPT_OS22

definition BIH_WIN4SIZE :: uint32 where "BIH_WIN4SIZE = 40"
definition BIH_WIN5SIZE :: uint32 where "BIH_WIN5SIZE = 57"
definition BIH_OS21SIZE :: uint32 where "BIH_OS21SIZE = 12"
definition BIH_OS22SIZE :: uint32 where "BIH_OS22SIZE = 64"

text \<open>The chain of tests on \<^verbatim>\<open>info_hdr.iSize\<close> that sets \<^verbatim>\<open>bmp_type\<close>.\<close>

definition bmp_type_of :: "uint32 \<Rightarrow> BMPType" where
  "bmp_type_of iSize =
     (if iSize = BIH_WIN4SIZE then BMPT_WIN4
      else if iSize = BIH_OS21SIZE then BMPT_OS21
      else if iSize = BIH_OS22SIZE \<or> iSize = 16 then BMPT_OS22
      else BMPT_WIN5)"

text \<open>
  \<^verbatim>\<open>n_clr_elems\<close> is initialised to 3 and then assigned by three \<^verbatim>\<open>if\<close> statements
  in a row: 4 for the Windows and OS/2 2.x headers, then 3 again for OS/2 2.x (under
  the comment "different info in different documents regarding this"), then 3 for
  OS/2 1.x. The assignments are kept in the order of the source.
\<close>

definition n_clr_elems_of :: "BMPType \<Rightarrow> uint32" where
  "n_clr_elems_of bmp_type =
     (let n0 = 3;
          n1 = (if bmp_type = BMPT_WIN4 \<or> bmp_type = BMPT_WIN5 \<or> bmp_type = BMPT_OS22
                then 4 else n0);
          n2 = (if bmp_type = BMPT_OS22 then 3 else n1);
          n3 = (if bmp_type = BMPT_OS21 then 3 else n2)
      in n3)"

subsection \<open>The size of one stored row\<close>

text \<open>
  \<^verbatim>\<open>size = ((width * info_hdr.iBitCount + 31) & ~31) / 8\<close> with \<^verbatim>\<open>width\<close> a
  \<^verbatim>\<open>uint32\<close> and \<^verbatim>\<open>iBitCount\<close> an \<^verbatim>\<open>int16\<close>: the bit count is promoted to \<^verbatim>\<open>int\<close>
  and converted to \<^verbatim>\<open>uint32\<close> (\<open>scast\<close>), the whole expression is computed in
  \<^verbatim>\<open>uint32\<close>, and \<^verbatim>\<open>~31\<close> converts to the word \<open>NOT 31\<close>.
\<close>

definition scan_size :: "uint32 \<Rightarrow> int16 \<Rightarrow> uint32" where
  "scan_size width iBitCount = ((width * scast iBitCount + 31) AND NOT 31) div 8"

subsection \<open>Memory\<close>

text \<open>
  A buffer is the list of its bytes. Reading or writing outside the block is undefined
  behaviour in C; the model makes it a value, so that a proof can say that it does or
  does not happen.
\<close>

datatype fault = ReadPastEnd nat | WritePastEnd nat

definition peek :: "uchar list \<Rightarrow> uint32 \<Rightarrow> fault + uchar" where
  "peek buf i =
     (if unat i < length buf then Inr (buf ! unat i) else Inl (ReadPastEnd (unat i)))"

definition poke :: "uchar list \<Rightarrow> uint32 \<Rightarrow> uchar \<Rightarrow> fault + uchar list" where
  "poke buf j v =
     (if unat j < length buf then Inr (buf[unat j := v]) else Inl (WritePastEnd (unat j)))"

text \<open>
  \<^verbatim>\<open>_TIFFmalloc\<close> returns a block of the requested size and does not initialise it:
  the bytes the block happens to hold are a parameter.
\<close>

definition TIFFmalloc :: "(nat \<Rightarrow> uchar) \<Rightarrow> uint32 \<Rightarrow> uchar list" where
  "TIFFmalloc junk n = map junk [0..<unat n]"

text \<open>
  A pointer \<^verbatim>\<open>block + off\<close> handed to a reader that takes \<open>n\<close> bytes from it: the
  bytes are those of the block from \<open>off\<close> on when all of them lie inside the block.
  Otherwise the reader leaves the block; the fault names the first position outside
  the block that it reads.
\<close>

definition row_at :: "uchar list \<Rightarrow> uint32 \<Rightarrow> uint32 \<Rightarrow> fault + uchar list" where
  "row_at block off n =
     (if unat off + unat n \<le> length block then Inr (take (unat n) (drop (unat off) block))
      else Inl (ReadPastEnd (max (unat off) (length block))))"

text \<open>
  The input stream is the list of the bytes of the file and a position.
  \<^verbatim>\<open>fseek (in, off, SEEK_SET)\<close> moves the position to \<open>off\<close> when it succeeds and
  leaves it where it was when it fails. Whether a seek to \<open>off\<close> succeeds is the
  host's: the \<^verbatim>\<open>uint32\<close> offset is converted to \<^verbatim>\<open>long\<close>, and the stream need not be
  seekable. The result is the position after the call.
\<close>

definition fseek_set :: "(uint32 \<Rightarrow> bool) \<Rightarrow> nat \<Rightarrow> uint32 \<Rightarrow> nat" where
  "fseek_set seeks pos off = (if seeks off then unat off else pos)"

text \<open>
  \<^verbatim>\<open>fread\<close> of \<open>n\<close> bytes into \<open>buf\<close> with the stream at position \<open>off\<close>: the bytes
  the file has from \<open>off\<close> on, at most \<open>n\<close> of them, replace the front of the buffer,
  and the rest of the buffer keeps what it held.
\<close>

definition fread_at :: "uchar list \<Rightarrow> nat \<Rightarrow> nat \<Rightarrow> uchar list \<Rightarrow> uchar list" where
  "fread_at bytes off n buf =
     (let got = take n (drop off bytes) in got @ drop (length got) buf)"

text \<open>\<^verbatim>\<open>fread (buf, size, 1, in) == 1\<close>: one whole item of \<open>size\<close> bytes was there.\<close>

definition fread_whole :: "uchar list \<Rightarrow> nat \<Rightarrow> nat \<Rightarrow> bool" where
  "fread_whole bytes off n \<longleftrightarrow> 0 < n \<and> off + n \<le> length bytes"

text \<open>The position of the stream after that \<^verbatim>\<open>fread\<close>: behind the bytes it took.\<close>

definition fread_end :: "uchar list \<Rightarrow> nat \<Rightarrow> nat \<Rightarrow> nat" where
  "fread_end bytes off n = off + length (take n (drop off bytes))"

subsection \<open>Run-length decoding: the inner loops\<close>

lemma unat_pred_less: "0 < (n::uint32) \<Longrightarrow> unat (n - 1) < unat n"
  by (simp add: measure_unat word_greater_zero_iff)

lemma unat_succ_below: "(k::uint32) < n \<Longrightarrow> unat (k + 1) = Suc (unat k)"
proof -
  assume "k < n"
  then have "unat k < unat n"
    by (simp add: word_less_nat_alt)
  moreover have "unat n < 2 ^ 32"
    using unsigned_less [of n, where 'a = nat] by simp
  ultimately have "unat k + 1 < 2 ^ 32"
    by simp
  then show ?thesis
    by (simp add: unat_word_ariths)
qed

text \<open>
  RLE8, encoded run. \<^verbatim>\<open>while (runlength > 0 && j < uncompr_size && i < compr_size)
  { uncomprbuf[j++] = comprbuf[i]; runlength--; }\<close>. It returns \<open>j\<close> and the buffer.
\<close>

function rle8_run ::
  "uchar list \<Rightarrow> uint32 \<Rightarrow> uint32 \<Rightarrow> uint32 \<Rightarrow> uint32 \<Rightarrow> uint32 \<Rightarrow> uchar list
     \<Rightarrow> fault + (uint32 \<times> uchar list)" where
  "rle8_run comprbuf compr_size uncompr_size i runlength j uncomprbuf =
     (if 0 < runlength \<and> j < uncompr_size \<and> i < compr_size then
        (case peek comprbuf i of
           Inl e \<Rightarrow> Inl e
         | Inr b \<Rightarrow>
             (case poke uncomprbuf j b of
                Inl e \<Rightarrow> Inl e
              | Inr uncomprbuf' \<Rightarrow>
                  rle8_run comprbuf compr_size uncompr_size i (runlength - 1) (j + 1)
                    uncomprbuf'))
      else Inr (j, uncomprbuf))"
  by pat_completeness auto
termination
  by (relation "measure (\<lambda>(comprbuf, compr_size, uncompr_size, i, runlength, j, uncomprbuf).
        unat runlength)") (auto simp: unat_pred_less)

declare rle8_run.simps [simp del]

text \<open>
  RLE8, absolute mode. \<^verbatim>\<open>for (k = 0; k < runlength && j < uncompr_size && i < compr_size;
  k++) uncomprbuf[j++] = comprbuf[i++];\<close>. It returns \<open>k\<close>, \<open>i\<close>, \<open>j\<close> and the buffer.
\<close>

function rle8_abs ::
  "uchar list \<Rightarrow> uint32 \<Rightarrow> uint32 \<Rightarrow> uint32 \<Rightarrow> uint32 \<Rightarrow> uint32 \<Rightarrow> uint32 \<Rightarrow> uchar list
     \<Rightarrow> fault + (uint32 \<times> uint32 \<times> uint32 \<times> uchar list)" where
  "rle8_abs comprbuf compr_size uncompr_size runlength k i j uncomprbuf =
     (if k < runlength \<and> j < uncompr_size \<and> i < compr_size then
        (case peek comprbuf i of
           Inl e \<Rightarrow> Inl e
         | Inr b \<Rightarrow>
             (case poke uncomprbuf j b of
                Inl e \<Rightarrow> Inl e
              | Inr uncomprbuf' \<Rightarrow>
                  rle8_abs comprbuf compr_size uncompr_size runlength (k + 1) (i + 1) (j + 1)
                    uncomprbuf'))
      else Inr (k, i, j, uncomprbuf))"
  by pat_completeness auto
termination
  by (relation "measure (\<lambda>(comprbuf, compr_size, uncompr_size, runlength, k, i, j, uncomprbuf).
        unat runlength - unat k)") (auto simp: unat_succ_below word_less_nat_alt)

declare rle8_abs.simps [simp del]

text \<open>
  RLE4, encoded run. The counter that selects the nibble is \<^verbatim>\<open>runlength\<close> itself,
  which counts down: \<^verbatim>\<open>if (runlength & 0x01) uncomprbuf[j++] = (comprbuf[i] & 0xF0) >> 4;
  else uncomprbuf[j++] = comprbuf[i] & 0x0F; runlength--;\<close>.
\<close>

function rle4_run ::
  "uchar list \<Rightarrow> uint32 \<Rightarrow> uint32 \<Rightarrow> uint32 \<Rightarrow> uint32 \<Rightarrow> uint32 \<Rightarrow> uchar list
     \<Rightarrow> fault + (uint32 \<times> uchar list)" where
  "rle4_run comprbuf compr_size uncompr_size i runlength j uncomprbuf =
     (if 0 < runlength \<and> j < uncompr_size \<and> i < compr_size then
        (case peek comprbuf i of
           Inl e \<Rightarrow> Inl e
         | Inr b \<Rightarrow>
             (case poke uncomprbuf j
                     (if runlength AND 1 \<noteq> 0 then drop_bit 4 (b AND 0xF0) else b AND 0x0F) of
                Inl e \<Rightarrow> Inl e
              | Inr uncomprbuf' \<Rightarrow>
                  rle4_run comprbuf compr_size uncompr_size i (runlength - 1) (j + 1)
                    uncomprbuf'))
      else Inr (j, uncomprbuf))"
  by pat_completeness auto
termination
  by (relation "measure (\<lambda>(comprbuf, compr_size, uncompr_size, i, runlength, j, uncomprbuf).
        unat runlength)") (auto simp: unat_pred_less)

declare rle4_run.simps [simp del]

text \<open>
  RLE4, absolute mode. \<^verbatim>\<open>for (k = 0; k < runlength && j < uncompr_size && i < compr_size;
  k++) { if (k & 0x01) uncomprbuf[j++] = comprbuf[i++] & 0x0F;
  else uncomprbuf[j++] = (comprbuf[i] & 0xF0) >> 4; }\<close>: \<open>i\<close> moves on after the low
  nibble only.
\<close>

function rle4_abs ::
  "uchar list \<Rightarrow> uint32 \<Rightarrow> uint32 \<Rightarrow> uint32 \<Rightarrow> uint32 \<Rightarrow> uint32 \<Rightarrow> uint32 \<Rightarrow> uchar list
     \<Rightarrow> fault + (uint32 \<times> uint32 \<times> uint32 \<times> uchar list)" where
  "rle4_abs comprbuf compr_size uncompr_size runlength k i j uncomprbuf =
     (if k < runlength \<and> j < uncompr_size \<and> i < compr_size then
        (case peek comprbuf i of
           Inl e \<Rightarrow> Inl e
         | Inr b \<Rightarrow>
             (if k AND 1 \<noteq> 0 then
                (case poke uncomprbuf j (b AND 0x0F) of
                   Inl e \<Rightarrow> Inl e
                 | Inr uncomprbuf' \<Rightarrow>
                     rle4_abs comprbuf compr_size uncompr_size runlength (k + 1) (i + 1)
                       (j + 1) uncomprbuf')
              else
                (case poke uncomprbuf j (drop_bit 4 (b AND 0xF0)) of
                   Inl e \<Rightarrow> Inl e
                 | Inr uncomprbuf' \<Rightarrow>
                     rle4_abs comprbuf compr_size uncompr_size runlength (k + 1) i
                       (j + 1) uncomprbuf')))
      else Inr (k, i, j, uncomprbuf))"
  by pat_completeness auto
termination
  by (relation "measure (\<lambda>(comprbuf, compr_size, uncompr_size, runlength, k, i, j, uncomprbuf).
        unat runlength - unat k)") (auto simp: unat_succ_below word_less_nat_alt)

declare rle4_abs.simps [simp del]

subsection \<open>Run-length decoding: one opcode, and the loop over opcodes\<close>

text \<open>
  The state of the decoder is \<open>(i, j, uncomprbuf)\<close>: the read cursor, the write
  cursor and the output block. One pass through the body of the outer \<^verbatim>\<open>while\<close>
  either goes on to the next pass or leaves the loop by \<^verbatim>\<open>break\<close>.
\<close>

datatype ctl = Continue | Break

type_synonym rle_state = "uint32 \<times> uint32 \<times> uchar list"

text \<open>
  The body of the RLE8 loop. The first byte is read under the loop condition
  \<^verbatim>\<open>i < compr_size\<close>. In the escape branch the source increments \<open>i\<close> and reads
  \<^verbatim>\<open>comprbuf[i]\<close> with no test in between; the tests \<^verbatim>\<open>== 0\<close>, \<^verbatim>\<open>== 1\<close>, \<^verbatim>\<open>== 2\<close> and
  the assignment \<^verbatim>\<open>runlength = comprbuf[i++]\<close> all read that same byte, here \<open>b1\<close>.
  In \<^verbatim>\<open>j += comprbuf[i] + comprbuf[i+1] * width\<close> the bytes are converted to
  \<^verbatim>\<open>uint32\<close> and the sum wraps.
\<close>

definition rle8_iter ::
  "uchar list \<Rightarrow> uint32 \<Rightarrow> uint32 \<Rightarrow> uint32 \<Rightarrow> rle_state \<Rightarrow> fault + (ctl \<times> rle_state)" where
  "rle8_iter comprbuf compr_size width uncompr_size st =
     (case st of (i, j, uncomprbuf) \<Rightarrow>
        (case peek comprbuf i of
           Inl e \<Rightarrow> Inl e
         | Inr b0 \<Rightarrow>
             if b0 \<noteq> 0 then
               (case rle8_run comprbuf compr_size uncompr_size (i + 1) (ucast b0) j
                       uncomprbuf of
                  Inl e \<Rightarrow> Inl e
                | Inr (j', uncomprbuf') \<Rightarrow> Inr (Continue, i + 1 + 1, j', uncomprbuf'))
             else
               (case peek comprbuf (i + 1) of
                  Inl e \<Rightarrow> Inl e
                | Inr b1 \<Rightarrow>
                    if b1 = 0 then Inr (Continue, i + 1 + 1, j, uncomprbuf)
                    else if b1 = 1 then Inr (Break, i + 1, j, uncomprbuf)
                    else if b1 = 2 then
                      (if i + 1 + 1 < compr_size - 1 then
                         (case peek comprbuf (i + 1 + 1) of
                            Inl e \<Rightarrow> Inl e
                          | Inr dx \<Rightarrow>
                              (case peek comprbuf (i + 1 + 1 + 1) of
                                 Inl e \<Rightarrow> Inl e
                               | Inr dy \<Rightarrow>
                                   Inr (Continue, i + 1 + 1 + 2,
                                        j + (ucast dx + ucast dy * width), uncomprbuf)))
                       else Inr (Break, i + 1 + 1, j, uncomprbuf))
                    else
                      (case rle8_abs comprbuf compr_size uncompr_size (ucast b1) 0
                              (i + 1 + 1) j uncomprbuf of
                         Inl e \<Rightarrow> Inl e
                       | Inr (k, i', j', uncomprbuf') \<Rightarrow>
                           Inr (Continue, (if k AND 1 \<noteq> 0 then i' + 1 else i'), j',
                                uncomprbuf')))))"

text \<open>The body of the RLE4 loop: the same text with the two RLE4 inner loops.\<close>

definition rle4_iter ::
  "uchar list \<Rightarrow> uint32 \<Rightarrow> uint32 \<Rightarrow> uint32 \<Rightarrow> rle_state \<Rightarrow> fault + (ctl \<times> rle_state)" where
  "rle4_iter comprbuf compr_size width uncompr_size st =
     (case st of (i, j, uncomprbuf) \<Rightarrow>
        (case peek comprbuf i of
           Inl e \<Rightarrow> Inl e
         | Inr b0 \<Rightarrow>
             if b0 \<noteq> 0 then
               (case rle4_run comprbuf compr_size uncompr_size (i + 1) (ucast b0) j
                       uncomprbuf of
                  Inl e \<Rightarrow> Inl e
                | Inr (j', uncomprbuf') \<Rightarrow> Inr (Continue, i + 1 + 1, j', uncomprbuf'))
             else
               (case peek comprbuf (i + 1) of
                  Inl e \<Rightarrow> Inl e
                | Inr b1 \<Rightarrow>
                    if b1 = 0 then Inr (Continue, i + 1 + 1, j, uncomprbuf)
                    else if b1 = 1 then Inr (Break, i + 1, j, uncomprbuf)
                    else if b1 = 2 then
                      (if i + 1 + 1 < compr_size - 1 then
                         (case peek comprbuf (i + 1 + 1) of
                            Inl e \<Rightarrow> Inl e
                          | Inr dx \<Rightarrow>
                              (case peek comprbuf (i + 1 + 1 + 1) of
                                 Inl e \<Rightarrow> Inl e
                               | Inr dy \<Rightarrow>
                                   Inr (Continue, i + 1 + 1 + 2,
                                        j + (ucast dx + ucast dy * width), uncomprbuf)))
                       else Inr (Break, i + 1 + 1, j, uncomprbuf))
                    else
                      (case rle4_abs comprbuf compr_size uncompr_size (ucast b1) 0
                              (i + 1 + 1) j uncomprbuf of
                         Inl e \<Rightarrow> Inl e
                       | Inr (k, i', j', uncomprbuf') \<Rightarrow>
                           Inr (Continue, (if k AND 1 \<noteq> 0 then i' + 1 else i'), j',
                                uncomprbuf')))))"

text \<open>
  \<^verbatim>\<open>while (j < uncompr_size && i < compr_size) body\<close>. Nothing in the text of the
  loop bounds the number of passes, so the loop is a partial function: \<open>None\<close> is a
  loop that never returns, \<open>Some (Inl e)\<close> an access outside a block, and
  \<open>Some (Inr st)\<close> the state in which the loop was left.
\<close>

partial_function (option) rle_while ::
  "(rle_state \<Rightarrow> fault + (ctl \<times> rle_state)) \<Rightarrow> uint32 \<Rightarrow> uint32 \<Rightarrow> rle_state
     \<Rightarrow> (fault + rle_state) option" where
  "rle_while body compr_size uncompr_size st =
     (case st of (i, j, uncomprbuf) \<Rightarrow>
        if j < uncompr_size \<and> i < compr_size then
          (case body st of
             Inl e \<Rightarrow> Some (Inl e)
           | Inr (Break, st') \<Rightarrow> Some (Inr st')
           | Inr (Continue, st') \<Rightarrow> rle_while body compr_size uncompr_size st')
        else Some (Inr st))"

declare rle_while.simps [code]

text \<open>
  The decompression of lines 526 to 602: both cursors start at 0, and the bit count
  of the header selects the RLE8 loop (\<^verbatim>\<open>iBitCount == 8\<close>) or the RLE4 loop (any other
  bit count).
\<close>

definition rle_decode ::
  "int16 \<Rightarrow> uchar list \<Rightarrow> uint32 \<Rightarrow> uint32 \<Rightarrow> uint32 \<Rightarrow> uchar list
     \<Rightarrow> (fault + rle_state) option" where
  "rle_decode iBitCount comprbuf compr_size width uncompr_size uncomprbuf =
     (if iBitCount = 8
      then rle_while (rle8_iter comprbuf compr_size width uncompr_size)
             compr_size uncompr_size (0, 0, uncomprbuf)
      else rle_while (rle4_iter comprbuf compr_size width uncompr_size)
             compr_size uncompr_size (0, 0, uncomprbuf))"

subsection \<open>The rows handed to the TIFF writer\<close>

text \<open>
  What the conversion leaves behind: the messages printed on \<^verbatim>\<open>stderr\<close>, the rows
  handed to \<^verbatim>\<open>TIFFWriteScanline\<close> in the order of the calls, and the value \<^verbatim>\<open>main\<close>
  returns.
\<close>

datatype diag =
    BadBitCount int16
  | CannotOpenOutput
  | SeekError uint32
  | ReadError uint32
  | WriteError uint32

record outcome =
  diags :: "diag list"
  scanlines :: "(uint32 \<times> uchar list) list"
  retval :: int

text \<open>
  Modelled from the spec: \<^verbatim>\<open>TIFFWriteScanline\<close> is libtiff's, not part of
  \<^verbatim>\<open>bmp2tiff.c\<close>; it is the image sink of the spec, \<open>emit (rowIndex, bytes)\<close>. The model
  records the row index and the bytes of the row, and whether the writer accepts the
  row is a parameter. A refused row makes the source print "Write error" and go on.
\<close>

definition TIFFWriteScanline :: "(uint32 \<Rightarrow> bool) \<Rightarrow> uchar list \<Rightarrow> uint32 \<Rightarrow> outcome \<Rightarrow> outcome" where
  "TIFFWriteScanline accepts buf row out =
     out\<lparr>scanlines := scanlines out @ [(row, buf)],
         diags := diags out @ (if accepts row then [] else [WriteError row])\<rparr>"

text \<open>\<^verbatim>\<open>length = (info_hdr.iHeight > 0) ? info_hdr.iHeight : -info_hdr.iHeight\<close>.\<close>

definition image_length :: "int32 \<Rightarrow> uint32" where
  "image_length iHeight = (if 0 < sint iHeight then iHeight else - iHeight)"

subsection \<open>Uncompressed rows\<close>

text \<open>
  \<^verbatim>\<open>rearrangePixels\<close>, case 24: \<^verbatim>\<open>for (i = 0; i < width; i++, buf += 3)\<close> swaps
  \<^verbatim>\<open>buf[0]\<close> and \<^verbatim>\<open>buf[2]\<close>. \<open>p\<close> is the distance of \<^verbatim>\<open>buf\<close> from the start of the
  block. The source does not test the pointer against the block.
\<close>

function swap24 :: "uint32 \<Rightarrow> uint32 \<Rightarrow> nat \<Rightarrow> uchar list \<Rightarrow> fault + uchar list" where
  "swap24 width i p buf =
     (if i < width then
        (if p + 2 < length buf then
           (let tmp = buf ! p;
                buf1 = buf[p := buf ! (p + 2)];
                buf2 = buf1[p + 2 := tmp]
            in swap24 width (i + 1) (p + 3) buf2)
         else Inl (ReadPastEnd (if p < length buf then p + 2 else p)))
      else Inr buf)"
  by pat_completeness auto
termination
  by (relation "measure (\<lambda>(width, i, p, buf). unat width - unat i)")
    (auto simp: unat_succ_below word_less_nat_alt)

declare swap24.simps [simp del]

text \<open>
  \<^verbatim>\<open>rearrangePixels\<close>, case 32: \<^verbatim>\<open>tmp = *buf; *buf1++ = *(buf + 2); *buf1++ = *(buf + 1);
  *buf1++ = tmp;\<close> with \<^verbatim>\<open>buf += 4\<close>. \<open>p\<close> is the distance of \<^verbatim>\<open>buf\<close> and \<open>q\<close> the
  distance of \<^verbatim>\<open>buf1\<close> from the start of the block.
\<close>

function pack32 :: "uint32 \<Rightarrow> uint32 \<Rightarrow> nat \<Rightarrow> nat \<Rightarrow> uchar list \<Rightarrow> fault + uchar list" where
  "pack32 width i p q buf =
     (if i < width then
        (if p + 2 < length buf \<and> q + 2 < length buf then
           (let tmp = buf ! p;
                buf1 = buf[q := buf ! (p + 2)];
                buf2 = buf1[q + 1 := buf1 ! (p + 1)];
                buf3 = buf2[q + 2 := tmp]
            in pack32 width (i + 1) (p + 4) (q + 3) buf3)
         else Inl (ReadPastEnd (if p < length buf then p + 2 else p)))
      else Inr buf)"
  by pat_completeness auto
termination
  by (relation "measure (\<lambda>(width, i, p, q, buf). unat width - unat i)")
    (auto simp: unat_succ_below word_less_nat_alt)

declare pack32.simps [simp del]

definition rearrangePixels :: "uchar list \<Rightarrow> uint32 \<Rightarrow> uint32 \<Rightarrow> fault + uchar list" where
  "rearrangePixels buf width bit_count =
     (if bit_count = 16 then Inr buf
      else if bit_count = 24 then swap24 width 0 0 buf
      else if bit_count = 32 then pack32 width 0 0 0 buf
      else Inr buf)"

text \<open>
  The loop over the rows of an uncompressed image (lines 477 to 504), from \<open>row\<close> on,
  with the input stream at position \<open>pos\<close>. \<open>rsize\<close> is the \<^verbatim>\<open>size\<close> of the source.
  The offset is computed in \<^verbatim>\<open>uint32\<close>. A seek that fails prints "Seek error" and the
  read takes place where the stream stands. A short read prints "Read error" and the
  loop goes on with whatever the buffer holds. The writer is given the row buffer.
\<close>

function rgb_rows ::
  "uchar list \<Rightarrow> (uint32 \<Rightarrow> bool) \<Rightarrow> (uint32 \<Rightarrow> bool) \<Rightarrow> uint32 \<Rightarrow> int32 \<Rightarrow> int16
     \<Rightarrow> uint32 \<Rightarrow> uint32 \<Rightarrow> uint32 \<Rightarrow> uint32 \<Rightarrow> nat \<Rightarrow> uchar list \<Rightarrow> outcome
     \<Rightarrow> fault + outcome" where
  "rgb_rows infile seeks accepts iOffBits iHeight iBitCount width len rsize row pos scanbuf out =
     (if row < len then
        (let offset = (if 0 < sint iHeight then iOffBits + (len - row - 1) * rsize
                       else iOffBits + row * rsize);
             out1 = (if seeks offset then out
                     else out\<lparr>diags := diags out @ [SeekError row]\<rparr>);
             pos1 = fseek_set seeks pos offset;
             scanbuf1 = fread_at infile pos1 (unat rsize) scanbuf;
             out2 = (if fread_whole infile pos1 (unat rsize) then out1
                     else out1\<lparr>diags := diags out1 @ [ReadError row]\<rparr>);
             pos2 = fread_end infile pos1 (unat rsize)
         in case rearrangePixels scanbuf1 width (scast iBitCount) of
              Inl e \<Rightarrow> Inl e
            | Inr scanbuf2 \<Rightarrow>
                rgb_rows infile seeks accepts iOffBits iHeight iBitCount width len rsize
                  (row + 1) pos2 scanbuf2 (TIFFWriteScanline accepts scanbuf2 row out2))
      else Inr out)"
  by pat_completeness auto
termination
  by (relation "measure (\<lambda>(infile, seeks, accepts, iOffBits, iHeight, iBitCount, width, len,
        rsize, row, pos, scanbuf, out). unat len - unat row)")
    (auto simp: unat_succ_below word_less_nat_alt)

declare rgb_rows.simps [simp del]

subsection \<open>Rows of a run-length encoded image\<close>

text \<open>
  The loop of lines 606 to 613, from \<open>row\<close> on: row \<open>row\<close> is written from the pointer
  \<^verbatim>\<open>uncomprbuf + (length - row - 1) * width\<close>, whatever the sign of the height. The
  product is computed in \<^verbatim>\<open>uint32\<close>. The call gives the writer the pointer only; the
  row it stands for is that of the spec, the \<open>width\<close> indices from the pointer on,
  one byte each as the decoder stored them. The source does not test the pointer
  against the block.
\<close>

function rle_rows ::
  "(uint32 \<Rightarrow> bool) \<Rightarrow> uint32 \<Rightarrow> uint32 \<Rightarrow> uchar list \<Rightarrow> uint32 \<Rightarrow> outcome
     \<Rightarrow> fault + outcome" where
  "rle_rows accepts width len uncomprbuf row out =
     (if row < len then
        (case row_at uncomprbuf ((len - row - 1) * width) width of
           Inl e \<Rightarrow> Inl e
         | Inr px \<Rightarrow>
             rle_rows accepts width len uncomprbuf (row + 1)
               (TIFFWriteScanline accepts px row out))
      else Inr out)"
  by pat_completeness auto
termination
  by (relation "measure (\<lambda>(accepts, width, len, uncomprbuf, row, out). unat len - unat row)")
    (auto simp: unat_succ_below word_less_nat_alt)

declare rle_rows.simps [simp del]

subsection \<open>\<^verbatim>\<open>main\<close>, from the bit count test to the end\<close>

definition BMPC_RGB :: uint32 where "BMPC_RGB = 0"
definition BMPC_RLE8 :: uint32 where "BMPC_RLE8 = 1"
definition BMPC_RLE4 :: uint32 where "BMPC_RLE4 = 2"
definition BMPC_JPEG :: uint32 where "BMPC_JPEG = 4"
definition BMPC_PNG :: uint32 where "BMPC_PNG = 5"

text \<open>The fields of the two headers that \<^verbatim>\<open>main\<close> reads after it has filled them.\<close>

record BMPFileHeader =
  iSize :: uint32
  iOffBits :: uint32

record BMPInfoHeader =
  iWidth :: int32
  iHeight :: int32
  iBitCount :: int16
  iCompression :: uint32

text \<open>
  What the program finds around it: the bytes of the input file, the offsets to which
  a seek in it succeeds, the position at which the reads of the headers and of the
  colour table have left the input stream, whether \<^verbatim>\<open>TIFFOpen\<close> opens the output
  file, the bytes that the three freshly allocated blocks happen to hold, and the rows
  the TIFF writer accepts.
\<close>

record host =
  infile :: "uchar list"
  seeks :: "uint32 \<Rightarrow> bool"
  inpos :: nat
  opens :: bool
  scanbuf_junk :: "nat \<Rightarrow> uchar"
  comprbuf_junk :: "nat \<Rightarrow> uchar"
  uncomprbuf_junk :: "nat \<Rightarrow> uchar"
  accepts :: "uint32 \<Rightarrow> bool"

text \<open>
  Lines 519 to 602: the sizes, the two blocks, the seek to \<^verbatim>\<open>iOffBits\<close> (its result is
  not tested), the read of \<^verbatim>\<open>compr_size\<close> bytes of compressed data, and the
  decompression. \<^verbatim>\<open>file_hdr.iSize\<close> is the size of the file as \<^verbatim>\<open>stat\<close> gave it; the
  subtraction and the product wrap.
\<close>

definition rle_image :: "host \<Rightarrow> BMPFileHeader \<Rightarrow> BMPInfoHeader \<Rightarrow> (fault + rle_state) option" where
  "rle_image h file_hdr info_hdr =
     (let width = iWidth info_hdr;
          len = image_length (iHeight info_hdr);
          compr_size = iSize file_hdr - iOffBits file_hdr;
          uncompr_size = width * len;
          pos = fseek_set (seeks h) (inpos h) (iOffBits file_hdr);
          comprbuf = fread_at (infile h) pos (unat compr_size)
                       (TIFFmalloc (comprbuf_junk h) compr_size);
          uncomprbuf = TIFFmalloc (uncomprbuf_junk h) uncompr_size
      in rle_decode (iBitCount info_hdr) comprbuf compr_size width uncompr_size uncomprbuf)"

text \<open>
  Lines 470 to 626, the last part of \<^verbatim>\<open>main\<close>: an \<^verbatim>\<open>if\<close> for \<^verbatim>\<open>BMPC_RGB\<close>, an
  \<^verbatim>\<open>else if\<close> for \<^verbatim>\<open>BMPC_RLE8\<close> and \<^verbatim>\<open>BMPC_RLE4\<close>, no \<^verbatim>\<open>else\<close>, and
  \<^verbatim>\<open>return 0\<close> at the end. \<open>None\<close> is a decompression loop that does not return.
\<close>

definition image_data :: "host \<Rightarrow> BMPFileHeader \<Rightarrow> BMPInfoHeader \<Rightarrow> (fault + outcome) option" where
  "image_data h file_hdr info_hdr =
     (let width = iWidth info_hdr;
          len = image_length (iHeight info_hdr);
          out0 = \<lparr>diags = [], scanlines = [], retval = 0\<rparr>
      in
        if iCompression info_hdr = BMPC_RGB then
          (let rsize = scan_size width (iBitCount info_hdr);
               scanbuf = TIFFmalloc (scanbuf_junk h) rsize
           in Some (rgb_rows (infile h) (seeks h) (accepts h) (iOffBits file_hdr)
                      (iHeight info_hdr) (iBitCount info_hdr) width len rsize 0 (inpos h)
                      scanbuf out0))
        else if iCompression info_hdr = BMPC_RLE8 \<or> iCompression info_hdr = BMPC_RLE4 then
          (case rle_image h file_hdr info_hdr of
             None \<Rightarrow> None
           | Some (Inl e) \<Rightarrow> Some (Inl e)
           | Some (Inr (i, j, uncomprbuf)) \<Rightarrow>
               Some (rle_rows (accepts h) width len uncomprbuf 0 out0))
        else Some (Inr out0))"

text \<open>
  \<^verbatim>\<open>main\<close> from line 359 on, with the two headers filled. A bit count other than 1,
  4, 8, 16, 24 and 32 prints "Cannot process BMP file with bit count" and returns 0
  (lines 359 to 367). Then the colour table is read for the bit counts up to 8, with no
  message and no \<^verbatim>\<open>return\<close>, and the output file is opened: when \<^verbatim>\<open>TIFFOpen\<close> gives
  \<^verbatim>\<open>NULL\<close>, "Cannot open file for output" is printed and -1 returned (lines 431 to
  436). Then comes the image data.
\<close>

definition main_after_headers ::
  "host \<Rightarrow> BMPFileHeader \<Rightarrow> BMPInfoHeader \<Rightarrow> (fault + outcome) option" where
  "main_after_headers h file_hdr info_hdr =
     (if iBitCount info_hdr \<noteq> 1 \<and> iBitCount info_hdr \<noteq> 4 \<and>
         iBitCount info_hdr \<noteq> 8 \<and> iBitCount info_hdr \<noteq> 16 \<and>
         iBitCount info_hdr \<noteq> 24 \<and> iBitCount info_hdr \<noteq> 32
      then Some (Inr \<lparr>diags = [BadBitCount (iBitCount info_hdr)], scanlines = [], retval = 0\<rparr>)
      else if \<not> opens h
      then Some (Inr \<lparr>diags = [CannotOpenOutput], scanlines = [], retval = - 1\<rparr>)
      else image_data h file_hdr info_hdr)"


subsection \<open>A relation between two runs of the decoder\<close>

text \<open>
  Two output blocks \<open>A\<close> and \<open>B\<close>, reached from the initial contents \<open>a0\<close> and
  \<open>b0\<close>: at every position they either hold the same byte, or each still holds its
  own initial byte.
\<close>

definition keeps :: "uchar list \<Rightarrow> uchar list \<Rightarrow> uchar list \<Rightarrow> uchar list \<Rightarrow> bool" where
  "keeps a0 b0 A B \<longleftrightarrow>
     length A = length a0 \<and> length B = length a0 \<and>
     (\<forall>p<length a0. A ! p = B ! p \<or> (A ! p = a0 ! p \<and> B ! p = b0 ! p))"

section \<open>Properties\<close>

subsection \<open>Word arithmetic\<close>

lemma unat_and_not_31: "unat ((x::uint32) AND NOT 31) = unat x div 32 * 32"
proof -
  have "x AND NOT 31 = x AND NOT (mask 5)"
    by (simp add: mask_eq_exp_minus_1)
  also have "\<dots> = push_bit 5 (drop_bit 5 x)"
    by (rule bit_eqI) (auto simp add: bit_simps)
  also have "\<dots> = x div 32 * 32"
    by (simp add: drop_bit_eq_div push_bit_eq_mult)
  finally have "unat (x AND NOT 31) = unat (x div 32 * 32)"
    by simp
  also have "\<dots> = (unat x div 32 * 32) mod 2 ^ 32"
    by (simp add: unat_word_ariths unat_div mod_simps)
  also have "\<dots> = unat x div 32 * 32"
    using unsigned_less [of x, where 'a = nat] by simp
  finally show ?thesis .
qed

lemma unat_scast_bit_count:
  "b \<in> {1, 4, 8, 16, 24, 32} \<Longrightarrow> unat (scast (b::int16) :: uint32) = unat b"
  by auto

lemma scan_size_nat:
  assumes bits: "bits \<in> {1, 4, 8, 16, 24, 32}"
    and fits: "unat width * unat bits + 31 < 2 ^ 32"
  shows "unat (scan_size width bits) = (unat width * unat bits + 31) div 32 * 4"
proof -
  let ?b = "scast bits :: uint32"
  have b: "unat ?b = unat bits"
    using bits by (rule unat_scast_bit_count)
  have "unat (width * ?b + 31) = (unat width * unat ?b + 31) mod 2 ^ 32"
    by (simp add: unat_word_ariths mod_simps)
  also have "\<dots> = unat width * unat bits + 31"
    using fits by (simp add: b)
  finally have s: "unat (width * ?b + 31) = unat width * unat bits + 31" .
  have "unat (scan_size width bits) = unat ((width * ?b + 31) AND NOT 31) div 8"
    by (simp add: scan_size_def unat_div)
  also have "\<dots> = (unat width * unat bits + 31) div 32 * 32 div 8"
    by (simp only: unat_and_not_31 s)
  also have "\<dots> = (unat width * unat bits + 31) div 32 * 4"
    by simp
  finally show ?thesis .
qed

lemma ceiling_div_32: "\<lceil>real n / 32\<rceil> = int ((n + 31) div 32)"
proof -
  have "\<lceil>real n / 32\<rceil> = \<lceil>of_int (int n) / of_int 32 :: real\<rceil>"
    by simp
  also have "\<dots> = - (- int n div 32)"
    by (simp only: ceiling_divide_eq_div)
  also have "\<dots> = int ((n + 31) div 32)"
    by (simp add: zdiv_int)
  finally show ?thesis .
qed







text \<open>The parity test \<^verbatim>\<open>x & 0x01\<close> and the widening of a byte to \<^verbatim>\<open>uint32\<close>.\<close>

lemma odd_unat: "odd (unat (w::uint32)) \<longleftrightarrow> odd w"
  using bit_unsigned_iff [of w 0, where 'a = nat] by (simp add: bit_0)

lemma and_1_odd: "(rl::uint32) AND 1 \<noteq> 0 \<longleftrightarrow> odd (unat rl)"
proof -
  have "rl AND 1 \<noteq> 0 \<longleftrightarrow> odd rl"
    by (simp add: and_one_eq mod_2_eq_odd)
  then show ?thesis by (simp only: odd_unat)
qed

lemma unat_ucast_byte: "unat (ucast (b::uchar) :: uint32) = unat b"
proof -
  have "unat b < 2 ^ 8" using unsigned_less [of b, where 'a = nat] by simp
  then have "unat b < 2 ^ 32" by simp
  then show ?thesis by (simp add: unsigned_ucast_eq take_bit_nat_eq_self)
qed

subsection \<open>C4: the width of a colour table entry\<close>

text \<open>
  C4 (as the spec has it) gives the OS/2 2.x variant four bytes per colour table entry.
  The source assigns 4 and then overrides it with 3 for that variant, so the claim
  fails there.
\<close>

theorem C4_os22_entry_is_not_four:
  "n_clr_elems_of (bmp_type_of BIH_OS22SIZE) \<noteq> 4"
  by (simp add: n_clr_elems_of_def bmp_type_of_def BIH_OS22SIZE_def BIH_WIN4SIZE_def
      BIH_OS21SIZE_def)

text \<open>
  C4, amended: the entry width used when reading the colour table is 4 bytes for the
  Win4 and Win5 variants and 3 bytes for the OS22 and OS21 variants; the variants are
  the ones selected from the declared header sizes 40, 57, 64 (or 16) and 12.
\<close>

theorem C4_entry_width:
  "n_clr_elems_of BMPT_WIN4 = 4 \<and> n_clr_elems_of BMPT_WIN5 = 4 \<and>
   n_clr_elems_of BMPT_OS22 = 3 \<and> n_clr_elems_of BMPT_OS21 = 3 \<and>
   bmp_type_of BIH_WIN4SIZE = BMPT_WIN4 \<and> bmp_type_of BIH_WIN5SIZE = BMPT_WIN5 \<and>
   bmp_type_of BIH_OS22SIZE = BMPT_OS22 \<and> bmp_type_of 16 = BMPT_OS22 \<and>
   bmp_type_of BIH_OS21SIZE = BMPT_OS21"
  by (simp add: n_clr_elems_of_def bmp_type_of_def BIH_OS22SIZE_def BIH_WIN4SIZE_def
      BIH_OS21SIZE_def BIH_WIN5SIZE_def)

subsection \<open>C9: the row stride\<close>

text \<open>
  C9 (as the spec has it) states the stride formula for every positive width. The
  source computes \<open>width * iBitCount + 31\<close> in 32 bits: a 32-bit image
  \<open>2^27 = 134217728\<close> pixels wide (one row is 512 MiB) gets the stride 0 instead
  of \<open>2^29\<close>.
\<close>

theorem C9_stride_wraps:
  "int (unat (scan_size 134217728 32))
     \<noteq> \<lceil>real (unat (134217728 :: uint32) * unat (32 :: int16)) / 32\<rceil> * 4"
  by (simp add: scan_size_def)

text \<open>
  C9, amended: for every width > 0 and bit count in {1, 4, 8, 16, 24, 32} such that
  \<open>width * bitsPerPixel + 31\<close> is below \<open>2^32\<close>, the stride computed by the source
  equals \<open>ceil (width * bitsPerPixel / 32) * 4\<close>.
\<close>

theorem C9_stride:
  assumes "0 < width"
    and "bits \<in> {1, 4, 8, 16, 24, 32}"
    and "unat width * unat bits + 31 < 2 ^ 32"
  shows "int (unat (scan_size width bits))
           = \<lceil>real (unat width * unat bits) / 32\<rceil> * 4"
  using scan_size_nat [OF assms(2,3)] by (simp only: ceiling_div_32)

text \<open>The instance named in the spec: three pixels of 24 bits take a 12-byte row.\<close>

theorem C9_stride_witness:
  "(0::uint32) < 3 \<and> (24::int16) \<in> {1, 4, 8, 16, 24, 32}
     \<and> unat (3::uint32) * unat (24::int16) + 31 < 2 ^ 32
     \<and> int (unat (scan_size 3 24)) = 12"
  using C9_stride [of 3 24] by simp

subsection \<open>C5: a compression the reader does not know\<close>


text \<open>
  The only messages that name the header are about the bit count, whatever the
  compression is: a bit count outside 1, 4, 8, 16, 24 and 32 is reported, and then
  \<^verbatim>\<open>main\<close> returns 0 without a row.
\<close>

lemma bad_bit_count_is_reported:
  assumes "iBitCount info_hdr \<notin> {1, 4, 8, 16, 24, 32}"
  shows "main_after_headers h file_hdr info_hdr
           = Some (Inr \<lparr>diags = [BadBitCount (iBitCount info_hdr)], scanlines = [],
                        retval = 0\<rparr>)"
  using assms by (simp add: main_after_headers_def)



subsection \<open>C2: what a truncated stream leaves in the output buffer\<close>

text \<open>
  The decoder writes the output block and never reads it. Run from two initial contents
  of the block, every loop moves its cursors alike and keeps the two blocks related.
\<close>

lemma keeps_poke:
  assumes "poke A j v = Inr A'" and "keeps a0 b0 A B"
  shows "\<exists>B'. poke B j v = Inr B' \<and> keeps a0 b0 A' B'"
  using assms by (auto simp: poke_def keeps_def nth_list_update split: if_splits)

lemma rle8_run_keeps:
  "rle8_run cb cs us i rl j A = Inr (j', A') \<Longrightarrow> keeps a0 b0 A B \<Longrightarrow>
     \<exists>B'. rle8_run cb cs us i rl j B = Inr (j', B') \<and> keeps a0 b0 A' B'"
proof (induction cb cs us i rl j A arbitrary: B rule: rle8_run.induct)
  case (1 cb cs us i rl j A)
  show ?case
  proof (cases "0 < rl \<and> j < us \<and> i < cs")
    case False
    then have "j' = j" "A' = A" using "1.prems"(1) by (subst (asm) rle8_run.simps; simp)+
    then show ?thesis using False "1.prems"(2) by (subst rle8_run.simps) auto
  next
    case True
    then obtain b A2 where b: "peek cb i = Inr b" and w: "poke A j b = Inr A2"
      and r: "rle8_run cb cs us i (rl - 1) (j + 1) A2 = Inr (j', A')"
      using "1.prems"(1) by (subst (asm) rle8_run.simps) (auto split: sum.splits)
    from keeps_poke [OF w "1.prems"(2)] obtain B2 where
      w': "poke B j b = Inr B2" and k2: "keeps a0 b0 A2 B2" by blast
    from "1.IH" [OF True b w r k2] obtain B' where
      "rle8_run cb cs us i (rl - 1) (j + 1) B2 = Inr (j', B')" "keeps a0 b0 A' B'" by blast
    then show ?thesis using True b w' by (subst rle8_run.simps) simp
  qed
qed

lemma rle4_run_keeps:
  "rle4_run cb cs us i rl j A = Inr (j', A') \<Longrightarrow> keeps a0 b0 A B \<Longrightarrow>
     \<exists>B'. rle4_run cb cs us i rl j B = Inr (j', B') \<and> keeps a0 b0 A' B'"
proof (induction cb cs us i rl j A arbitrary: B rule: rle4_run.induct)
  case (1 cb cs us i rl j A)
  show ?case
  proof (cases "0 < rl \<and> j < us \<and> i < cs")
    case False
    then have "j' = j" "A' = A" using "1.prems"(1) by (subst (asm) rle4_run.simps; simp)+
    then show ?thesis using False "1.prems"(2) by (subst rle4_run.simps) auto
  next
    case True
    let ?v = "\<lambda>b::uchar. if rl AND 1 \<noteq> 0 then drop_bit 4 (b AND 0xF0) else b AND 0x0F"
    from True obtain b A2 where b: "peek cb i = Inr b" and w: "poke A j (?v b) = Inr A2"
      and r: "rle4_run cb cs us i (rl - 1) (j + 1) A2 = Inr (j', A')"
      using "1.prems"(1) by (subst (asm) rle4_run.simps) (auto split: sum.splits)
    from keeps_poke [OF w "1.prems"(2)] obtain B2 where
      w': "poke B j (?v b) = Inr B2" and k2: "keeps a0 b0 A2 B2" by blast
    from "1.IH" [OF True b w r k2] obtain B' where
      "rle4_run cb cs us i (rl - 1) (j + 1) B2 = Inr (j', B')" "keeps a0 b0 A' B'" by blast
    then show ?thesis using True b w' by (subst rle4_run.simps) simp
  qed
qed

lemma rle8_abs_keeps:
  "rle8_abs cb cs us rl k i j A = Inr (k', i', j', A') \<Longrightarrow> keeps a0 b0 A B \<Longrightarrow>
     \<exists>B'. rle8_abs cb cs us rl k i j B = Inr (k', i', j', B') \<and> keeps a0 b0 A' B'"
proof (induction cb cs us rl k i j A arbitrary: B rule: rle8_abs.induct)
  case (1 cb cs us rl k i j A)
  show ?case
  proof (cases "k < rl \<and> j < us \<and> i < cs")
    case False
    then have "k' = k" "i' = i" "j' = j" "A' = A"
      using "1.prems"(1) by (subst (asm) rle8_abs.simps; simp)+
    then show ?thesis using False "1.prems"(2) by (subst rle8_abs.simps) auto
  next
    case True
    then obtain b A2 where b: "peek cb i = Inr b" and w: "poke A j b = Inr A2"
      and r: "rle8_abs cb cs us rl (k + 1) (i + 1) (j + 1) A2 = Inr (k', i', j', A')"
      using "1.prems"(1) by (subst (asm) rle8_abs.simps) (auto split: sum.splits)
    from keeps_poke [OF w "1.prems"(2)] obtain B2 where
      w': "poke B j b = Inr B2" and k2: "keeps a0 b0 A2 B2" by blast
    from "1.IH" [OF True b w r k2] obtain B' where
      "rle8_abs cb cs us rl (k + 1) (i + 1) (j + 1) B2 = Inr (k', i', j', B')"
      "keeps a0 b0 A' B'" by blast
    then show ?thesis using True b w' by (subst rle8_abs.simps) simp
  qed
qed

lemma rle4_abs_keeps:
  "rle4_abs cb cs us rl k i j A = Inr (k', i', j', A') \<Longrightarrow> keeps a0 b0 A B \<Longrightarrow>
     \<exists>B'. rle4_abs cb cs us rl k i j B = Inr (k', i', j', B') \<and> keeps a0 b0 A' B'"
proof (induction cb cs us rl k i j A arbitrary: B rule: rle4_abs.induct)
  case (1 cb cs us rl k i j A)
  show ?case
  proof (cases "k < rl \<and> j < us \<and> i < cs")
    case False
    then have "k' = k" "i' = i" "j' = j" "A' = A"
      using "1.prems"(1) by (subst (asm) rle4_abs.simps; simp)+
    then show ?thesis using False "1.prems"(2) by (subst rle4_abs.simps) auto
  next
    case True
    then obtain b where b: "peek cb i = Inr b"
      using "1.prems"(1) by (subst (asm) rle4_abs.simps) (auto split: sum.splits)
    show ?thesis
    proof (cases "k AND 1 \<noteq> 0")
      case odd: True
      then obtain A2 where w: "poke A j (b AND 0x0F) = Inr A2"
        and r: "rle4_abs cb cs us rl (k + 1) (i + 1) (j + 1) A2 = Inr (k', i', j', A')"
        using "1.prems"(1) True b by (subst (asm) rle4_abs.simps) (auto split: sum.splits)
      from keeps_poke [OF w "1.prems"(2)] obtain B2 where
        w': "poke B j (b AND 0x0F) = Inr B2" and k2: "keeps a0 b0 A2 B2" by blast
      from "1.IH"(1) [OF True b odd w r k2] obtain B' where
        "rle4_abs cb cs us rl (k + 1) (i + 1) (j + 1) B2 = Inr (k', i', j', B')"
        "keeps a0 b0 A' B'" by blast
      then show ?thesis using True b odd w' by (subst rle4_abs.simps) simp
    next
      case even: False
      then obtain A2 where w: "poke A j (drop_bit 4 (b AND 0xF0)) = Inr A2"
        and r: "rle4_abs cb cs us rl (k + 1) i (j + 1) A2 = Inr (k', i', j', A')"
        using "1.prems"(1) True b by (subst (asm) rle4_abs.simps) (auto split: sum.splits)
      from keeps_poke [OF w "1.prems"(2)] obtain B2 where
        w': "poke B j (drop_bit 4 (b AND 0xF0)) = Inr B2" and k2: "keeps a0 b0 A2 B2" by blast
      from "1.IH"(2) [OF True b even w r k2] obtain B' where
        "rle4_abs cb cs us rl (k + 1) i (j + 1) B2 = Inr (k', i', j', B')"
        "keeps a0 b0 A' B'" by blast
      then show ?thesis using True b even w' by (subst rle4_abs.simps) simp
    qed
  qed
qed

lemma rle8_iter_keeps:
  assumes step: "rle8_iter cb cs w us (i, j, A) = Inr (c, i', j', A')"
    and k: "keeps a0 b0 A B"
  shows "\<exists>B'. rle8_iter cb cs w us (i, j, B) = Inr (c, i', j', B') \<and> keeps a0 b0 A' B'"
proof -
  obtain x0 where x0: "peek cb i = Inr x0"
    using step by (auto simp: rle8_iter_def split: sum.splits)
  show ?thesis
  proof (cases "x0 \<noteq> 0")
    case True
    then obtain r: "rle8_run cb cs us (i + 1) (ucast x0) j A = Inr (j', A')"
      and e: "c = Continue" "i' = i + 1 + 1"
      using step x0 by (auto simp: rle8_iter_def split: sum.splits)
    from rle8_run_keeps [OF r k] show ?thesis
      using True x0 e by (auto simp: rle8_iter_def)
  next
    case False
    then obtain x1 where x1: "peek cb (i + 1) = Inr x1"
      using step x0 by (auto simp: rle8_iter_def split: sum.splits)
    show ?thesis
    proof (cases "x1 = 0 \<or> x1 = 1 \<or> x1 = 2")
      case True
      then have "rle8_iter cb cs w us (i, j, B) = Inr (c, i', j', B) \<and> A' = A"
        using step x0 x1 False
        by (auto simp: rle8_iter_def split: sum.splits if_splits)
      then show ?thesis using k by auto
    next
      case abs: False
      then obtain kk i2 where
        r: "rle8_abs cb cs us (ucast x1) 0 (i + 1 + 1) j A = Inr (kk, i2, j', A')"
        and e: "c = Continue" "i' = (if kk AND 1 \<noteq> 0 then i2 + 1 else i2)"
        using step x0 x1 False by (auto simp: rle8_iter_def split: sum.splits)
      from rle8_abs_keeps [OF r k] show ?thesis
        using False abs x0 x1 e by (auto simp: rle8_iter_def)
    qed
  qed
qed

lemma rle4_iter_keeps:
  assumes step: "rle4_iter cb cs w us (i, j, A) = Inr (c, i', j', A')"
    and k: "keeps a0 b0 A B"
  shows "\<exists>B'. rle4_iter cb cs w us (i, j, B) = Inr (c, i', j', B') \<and> keeps a0 b0 A' B'"
proof -
  obtain x0 where x0: "peek cb i = Inr x0"
    using step by (auto simp: rle4_iter_def split: sum.splits)
  show ?thesis
  proof (cases "x0 \<noteq> 0")
    case True
    then obtain r: "rle4_run cb cs us (i + 1) (ucast x0) j A = Inr (j', A')"
      and e: "c = Continue" "i' = i + 1 + 1"
      using step x0 by (auto simp: rle4_iter_def split: sum.splits)
    from rle4_run_keeps [OF r k] show ?thesis
      using True x0 e by (auto simp: rle4_iter_def)
  next
    case False
    then obtain x1 where x1: "peek cb (i + 1) = Inr x1"
      using step x0 by (auto simp: rle4_iter_def split: sum.splits)
    show ?thesis
    proof (cases "x1 = 0 \<or> x1 = 1 \<or> x1 = 2")
      case True
      then have "rle4_iter cb cs w us (i, j, B) = Inr (c, i', j', B) \<and> A' = A"
        using step x0 x1 False
        by (auto simp: rle4_iter_def split: sum.splits if_splits)
      then show ?thesis using k by auto
    next
      case abs: False
      then obtain kk i2 where
        r: "rle4_abs cb cs us (ucast x1) 0 (i + 1 + 1) j A = Inr (kk, i2, j', A')"
        and e: "c = Continue" "i' = (if kk AND 1 \<noteq> 0 then i2 + 1 else i2)"
        using step x0 x1 False by (auto simp: rle4_iter_def split: sum.splits)
      from rle4_abs_keeps [OF r k] show ?thesis
        using False abs x0 x1 e by (auto simp: rle4_iter_def)
    qed
  qed
qed

lemma rle_while_keeps:
  assumes body: "\<And>i j A c i' j' A' B. body (i, j, A) = Inr (c, i', j', A') \<Longrightarrow>
      keeps a0 b0 A B \<Longrightarrow> \<exists>B'. body (i, j, B) = Inr (c, i', j', B') \<and> keeps a0 b0 A' B'"
    and ret: "rle_while body cs us (i, j, A) = Some (Inr (i', j', A'))"
    and k: "keeps a0 b0 A B"
  shows "\<exists>B'. rle_while body cs us (i, j, B) = Some (Inr (i', j', B')) \<and> keeps a0 b0 A' B'"
proof -
  have "bd = body \<longrightarrow> (\<forall>i j A i' j' A' B. st = (i, j, A) \<longrightarrow> y = Inr (i', j', A') \<longrightarrow>
          keeps a0 b0 A B \<longrightarrow>
          (\<exists>B'. rle_while body cs us (i, j, B) = Some (Inr (i', j', B')) \<and> keeps a0 b0 A' B'))"
    if r: "rle_while bd cs us st = Some y" for bd cs us st y
  proof (rule rle_while.raw_induct
      [where P = "\<lambda>bd cs us st y. bd = body \<longrightarrow>
          (\<forall>i j A i' j' A' B. st = (i, j, A) \<longrightarrow> y = Inr (i', j', A') \<longrightarrow> keeps a0 b0 A B \<longrightarrow>
             (\<exists>B'. rle_while body cs us (i, j, B) = Some (Inr (i', j', B'))
                    \<and> keeps a0 b0 A' B'))", OF _ r],
      goal_cases)
    case (1 rw bd cs us st y)
    show ?case
    proof (intro impI allI)
      fix i j A i' j' A' B
      assume bd: "bd = body" and st: "st = (i, j, A)" and y: "y = Inr (i', j', A')"
        and k: "keeps a0 b0 A B"
      show "\<exists>B'. rle_while body cs us (i, j, B) = Some (Inr (i', j', B')) \<and> keeps a0 b0 A' B'"
      proof (cases "j < us \<and> i < cs")
        case False
        then have "A' = A" "i' = i" "j' = j" using 1(2) st y by auto
        then show ?thesis using False k by (subst rle_while.simps) auto
      next
        case True
        then obtain c i2 j2 A2 where b: "body (i, j, A) = Inr (c, i2, j2, A2)"
          using 1(2) st y bd by (cases "body (i, j, A)") auto
        from body [OF b k] obtain B2 where
          b': "body (i, j, B) = Inr (c, i2, j2, B2)" and k2: "keeps a0 b0 A2 B2" by blast
        show ?thesis
        proof (cases c)
          case Break
          then have "A' = A2" "i' = i2" "j' = j2" using 1(2) st y bd True b by auto
          then show ?thesis using True b' Break k2 by (subst rle_while.simps) auto
        next
          case Continue
          then have "rw body cs us (i2, j2, A2) = Some (Inr (i', j', A'))"
            using 1(2) st y bd True b by auto
          from 1(1) [OF this] k2 obtain B' where
            "rle_while body cs us (i2, j2, B2) = Some (Inr (i', j', B'))" "keeps a0 b0 A' B'"
            by blast
          then show ?thesis using True b' Continue by (subst rle_while.simps) auto
        qed
      qed
    qed
  qed
  from this [OF ret] k show ?thesis by blast
qed

lemma rle_decode_keeps:
  assumes ret: "rle_decode bits cb cs w us init = Some (Inr (i, j, out))"
    and len: "length init' = length init"
  shows "\<exists>out'. rle_decode bits cb cs w us init' = Some (Inr (i, j, out'))
           \<and> keeps init init' out out'"
proof -
  have k: "keeps init init' init init'" using len by (simp add: keeps_def)
  show ?thesis
  proof (cases "bits = 8")
    case True
    then have "rle_while (rle8_iter cb cs w us) cs us (0, 0, init) = Some (Inr (i, j, out))"
      using ret by (simp add: rle_decode_def)
    from rle_while_keeps [where body = "rle8_iter cb cs w us", OF rle8_iter_keeps this k]
    show ?thesis using True by (simp add: rle_decode_def)
  next
    case False
    then have "rle_while (rle4_iter cb cs w us) cs us (0, 0, init) = Some (Inr (i, j, out))"
      using ret by (simp add: rle_decode_def)
    from rle_while_keeps [where body = "rle4_iter cb cs w us", OF rle4_iter_keeps this k]
    show ?thesis using False by (simp add: rle_decode_def)
  qed
qed

lemma written_or_kept:
  assumes "o1 = o3 \<or> (o1 = a \<and> o3 = a1)"
    and "o1 = o2 \<or> (o1 = a \<and> o2 = b)"
    and "o2 = o3 \<or> (o2 = b \<and> o3 = a1)"
    and "a1 \<noteq> a"
  shows "o2 = (if o3 = o1 then o1 else b)"
  using assms by metis

text \<open>
  C2 (as the spec has it) says that every position never written holds the value 0.
  The source allocates the output block with \<^verbatim>\<open>_TIFFmalloc\<close> and does not clear it. On
  a 4 by 2 RLE8 image whose stream is the single run \<open>04 01\<close>, with a block that held
  the byte \<open>AA\<close> everywhere, the four positions that are not written still hold
  \<open>AA\<close>, and they are handed to the writer as the top row.
\<close>

theorem C2_truncated_stream_leaves_junk:
  "main_after_headers
     \<lparr>infile = [0x42, 0x4D, 4, 1], seeks = (\<lambda>off. True), inpos = 0, opens = True,
      scanbuf_junk = (\<lambda>n. 0), comprbuf_junk = (\<lambda>n. 0),
      uncomprbuf_junk = (\<lambda>n. 0xAA), accepts = (\<lambda>row. True)\<rparr>
     \<lparr>iSize = 4, iOffBits = 2\<rparr>
     \<lparr>iWidth = 4, iHeight = 2, iBitCount = 8, iCompression = BMPC_RLE8\<rparr>
   = Some (Inr \<lparr>diags = [],
               scanlines = [(0, [0xAA, 0xAA, 0xAA, 0xAA]), (1, [1, 1, 1, 1])],
               retval = 0\<rparr>)"
  by code_simp

text \<open>
  C2, amended: when the decoder returns, which it does when the stream ends before the
  output buffer is full, every output position that was never written holds the byte
  the block held when it was allocated. There is a set \<open>W\<close> of positions, the
  written ones, such that from any initial content of the block the decoder returns
  with the same cursors, the positions in \<open>W\<close> hold the decoded values and every
  other position holds its initial byte.
\<close>

theorem C2_positions_not_written_keep_their_content:
  assumes ret: "rle_decode bits cb cs w us init = Some (Inr (i, j, out))"
  shows "\<exists>W. \<forall>init'. length init' = length init \<longrightarrow>
           (\<exists>out'. rle_decode bits cb cs w us init' = Some (Inr (i, j, out'))
              \<and> length out' = length init
              \<and> (\<forall>p<length init. out' ! p = (if p \<in> W then out ! p else init' ! p)))"
proof -
  let ?init2 = "map (\<lambda>x. x + 1) init"
  from rle_decode_keeps [OF ret, of ?init2] obtain out2 where
    d2: "rle_decode bits cb cs w us ?init2 = Some (Inr (i, j, out2))"
    and k2: "keeps init ?init2 out out2" by auto
  let ?W = "{p. out2 ! p = out ! p}"
  have "\<exists>out'. rle_decode bits cb cs w us init' = Some (Inr (i, j, out'))
          \<and> length out' = length init
          \<and> (\<forall>p<length init. out' ! p = (if p \<in> ?W then out ! p else init' ! p))"
    if len: "length init' = length init" for init'
  proof -
    from rle_decode_keeps [OF ret len] obtain out' where
      d': "rle_decode bits cb cs w us init' = Some (Inr (i, j, out'))"
      and k': "keeps init init' out out'" by auto
    have "length ?init2 = length init'" using len by simp
    from rle_decode_keeps [OF d' this] d2 have k3: "keeps init' ?init2 out' out2" by auto
    have "out' ! p = (if p \<in> ?W then out ! p else init' ! p)" if p: "p < length init" for p
    proof -
      have a: "out ! p = out2 ! p \<or> (out ! p = init ! p \<and> out2 ! p = init ! p + 1)"
        using k2 p by (auto simp: keeps_def)
      have b: "out ! p = out' ! p \<or> (out ! p = init ! p \<and> out' ! p = init' ! p)"
        using k' p by (auto simp: keeps_def)
      have c: "out' ! p = out2 ! p \<or> (out' ! p = init' ! p \<and> out2 ! p = init ! p + 1)"
        using k3 p len by (auto simp: keeps_def)
      have ne: "init ! p + 1 \<noteq> init ! p" by simp
      from written_or_kept [OF a b c ne] show ?thesis by simp
    qed
    moreover have "length out' = length init" using k' by (simp add: keeps_def)
    ultimately show ?thesis using d' by blast
  qed
  then show ?thesis by blast
qed

theorem C2_positions_not_written_keep_their_content_witness:
  "\<exists>W. \<forall>init'. length init' = length [0xAA, 0xAA, 0xAA, 0xAA, 0xAA, 0xAA, 0xAA, 0xAA :: uchar] \<longrightarrow>
     (\<exists>out'. rle_decode 8 [4, 1] 2 4 8 init' = Some (Inr (2, 4, out'))
        \<and> length out' = length [0xAA, 0xAA, 0xAA, 0xAA, 0xAA, 0xAA, 0xAA, 0xAA :: uchar]
        \<and> (\<forall>p<length [0xAA, 0xAA, 0xAA, 0xAA, 0xAA, 0xAA, 0xAA, 0xAA :: uchar].
              out' ! p = (if p \<in> W then [1, 1, 1, 1, 0xAA, 0xAA, 0xAA, 0xAA] ! p else init' ! p)))"
proof -
  have run: "rle_decode 8 [4, 1] 2 4 8 [0xAA, 0xAA, 0xAA, 0xAA, 0xAA, 0xAA, 0xAA, 0xAA]
               = Some (Inr (2, 4, [1, 1, 1, 1, 0xAA, 0xAA, 0xAA, 0xAA]))"
    by code_simp
  show ?thesis
    by (rule C2_positions_not_written_keep_their_content [OF run])
qed

subsection \<open>C10: the decompression loops return\<close>

lemma rle8_abs_cursor:
  "rle8_abs cb cs us rl k i j buf = Inr (k', i', j', buf') \<Longrightarrow> i \<le> i' \<and> (i' \<le> cs \<or> i' = i)"
proof (induction cb cs us rl k i j buf rule: rle8_abs.induct)
  case (1 cb cs us rl k i j buf)
  show ?case
  proof (cases "k < rl \<and> j < us \<and> i < cs")
    case False
    then show ?thesis using "1.prems" by (subst (asm) rle8_abs.simps) auto
  next
    case True
    then obtain b buf2 where b: "peek cb i = Inr b" and w: "poke buf j b = Inr buf2"
      and r: "rle8_abs cb cs us rl (k + 1) (i + 1) (j + 1) buf2 = Inr (k', i', j', buf')"
      using "1.prems" by (subst (asm) rle8_abs.simps) (auto split: sum.splits)
    from "1.IH" [OF True b w r] have ih: "i + 1 \<le> i' \<and> (i' \<le> cs \<or> i' = i + 1)" .
    from True have lt: "i < cs" by simp
    then have "i \<le> i + 1" "i + 1 \<le> cs" by unat_arith+
    then show ?thesis using ih by auto
  qed
qed

lemma rle4_abs_cursor:
  "rle4_abs cb cs us rl k i j buf = Inr (k', i', j', buf') \<Longrightarrow> i \<le> i' \<and> (i' \<le> cs \<or> i' = i)"
proof (induction cb cs us rl k i j buf rule: rle4_abs.induct)
  case (1 cb cs us rl k i j buf)
  show ?case
  proof (cases "k < rl \<and> j < us \<and> i < cs")
    case False
    then show ?thesis using "1.prems" by (subst (asm) rle4_abs.simps) auto
  next
    case True
    then obtain b where b: "peek cb i = Inr b"
      using "1.prems" by (subst (asm) rle4_abs.simps) (auto split: sum.splits)
    from True have lt: "i < cs" by simp
    then have step: "i \<le> i + 1" "i + 1 \<le> cs" by unat_arith+
    show ?thesis
    proof (cases "k AND 1 \<noteq> 0")
      case odd: True
      then obtain buf2 where w: "poke buf j (b AND 0x0F) = Inr buf2"
        and r: "rle4_abs cb cs us rl (k + 1) (i + 1) (j + 1) buf2 = Inr (k', i', j', buf')"
        using "1.prems" True b by (subst (asm) rle4_abs.simps) (auto split: sum.splits)
      from "1.IH"(1) [OF True b odd w r] step show ?thesis by auto
    next
      case even: False
      then obtain buf2 where w: "poke buf j (drop_bit 4 (b AND 0xF0)) = Inr buf2"
        and r: "rle4_abs cb cs us rl (k + 1) i (j + 1) buf2 = Inr (k', i', j', buf')"
        using "1.prems" True b by (subst (asm) rle4_abs.simps) (auto split: sum.splits)
      from "1.IH"(2) [OF True b even w r] show ?thesis by auto
    qed
  qed
qed

lemma peek_inside: "peek cb i = Inr b \<Longrightarrow> unat i < length cb"
  by (simp add: peek_def split: if_splits)

lemma rle8_iter_progress:
  assumes len: "length comprbuf = unat compr_size"
    and big: "unat compr_size < 2 ^ 32 - 1"
    and lt: "i < compr_size"
    and step: "rle8_iter comprbuf compr_size width uncompr_size (i, j, buf)
                 = Inr (Continue, i', j', buf')"
  shows "i < i'"
proof -
  have cs: "unat compr_size < 4294967295" using big by simp
  have ui: "unat i < unat compr_size" using lt by (simp add: word_less_nat_alt)
  have u1: "unat (i + 1) = unat i + 1" using ui cs by (simp add: unat_word_ariths)
  have u2: "unat (i + 1 + 1) = unat i + 2" using ui cs by (simp add: unat_word_ariths)
  have two: "i < i + 1 + 1" unfolding word_less_nat_alt u2 by simp
  obtain b0 where b0: "peek comprbuf i = Inr b0"
    using step by (auto simp: rle8_iter_def split: sum.splits)
  show ?thesis
  proof (cases "b0 \<noteq> 0")
    case True
    then have "i' = i + 1 + 1"
      using step b0 by (auto simp: rle8_iter_def split: sum.splits)
    then show ?thesis using two by simp
  next
    case False
    then obtain b1 where b1: "peek comprbuf (i + 1) = Inr b1"
      using step b0 by (auto simp: rle8_iter_def split: sum.splits)
    have in1: "unat i + 1 < unat compr_size"
      using peek_inside [OF b1] len u1 by simp
    have in2: "i + 1 + 1 \<le> compr_size" unfolding word_le_nat_alt u2 using in1 by simp
    have "b1 \<noteq> 1"
      using step b0 b1 False by (auto simp: rle8_iter_def split: if_splits)
    then consider (eol) "b1 = 0" | (delta) "b1 = 2" | (abs) "b1 \<noteq> 0" "b1 \<noteq> 1" "b1 \<noteq> 2"
      by blast
    then show ?thesis
    proof cases
      case eol
      then have "i' = i + 1 + 1"
        using step b0 b1 False by (auto simp: rle8_iter_def)
      then show ?thesis using two by simp
    next
      case delta
      then have g: "i + 1 + 1 < compr_size - 1" and e: "i' = i + 1 + 1 + 2"
        using step b0 b1 False by (auto simp: rle8_iter_def split: if_splits sum.splits)
      have "compr_size \<noteq> 0" using ui by auto
      then have "unat (compr_size - 1) = unat compr_size - 1" by (rule unat_minus_one)
      then have "unat i + 2 < unat compr_size - 1"
        using g unfolding word_less_nat_alt u2 by simp
      then have "unat (i + 1 + 1 + 2) = unat i + 4" using cs by (simp add: unat_word_ariths)
      then have "i < i + 1 + 1 + 2" unfolding word_less_nat_alt by simp
      then show ?thesis using e by simp
    next
      case abs
      then obtain k i2 where
        r: "rle8_abs comprbuf compr_size uncompr_size (ucast b1) 0 (i + 1 + 1) j buf
              = Inr (k, i2, j', buf')"
        and e: "i' = (if k AND 1 \<noteq> 0 then i2 + 1 else i2)"
        using step b0 b1 False by (auto simp: rle8_iter_def split: sum.splits)
      from rle8_abs_cursor [OF r] have c: "i + 1 + 1 \<le> i2" "i2 \<le> compr_size"
        using in2 by auto
      have lo: "unat i + 2 \<le> unat i2" using c(1) unfolding word_le_nat_alt u2 by simp
      have hi: "unat i2 \<le> unat compr_size" using c(2) by (simp add: word_le_nat_alt)
      have "unat (i2 + 1) = unat i2 + 1" using hi cs by (simp add: unat_word_ariths)
      then have "i < i2 + 1" using lo unfolding word_less_nat_alt by simp
      moreover have "i < i2" using lo unfolding word_less_nat_alt by simp
      ultimately show ?thesis using e by simp
    qed
  qed
qed

lemma rle4_iter_progress:
  assumes len: "length comprbuf = unat compr_size"
    and big: "unat compr_size < 2 ^ 32 - 1"
    and lt: "i < compr_size"
    and step: "rle4_iter comprbuf compr_size width uncompr_size (i, j, buf)
                 = Inr (Continue, i', j', buf')"
  shows "i < i'"
proof -
  have cs: "unat compr_size < 4294967295" using big by simp
  have ui: "unat i < unat compr_size" using lt by (simp add: word_less_nat_alt)
  have u1: "unat (i + 1) = unat i + 1" using ui cs by (simp add: unat_word_ariths)
  have u2: "unat (i + 1 + 1) = unat i + 2" using ui cs by (simp add: unat_word_ariths)
  have two: "i < i + 1 + 1" unfolding word_less_nat_alt u2 by simp
  obtain b0 where b0: "peek comprbuf i = Inr b0"
    using step by (auto simp: rle4_iter_def split: sum.splits)
  show ?thesis
  proof (cases "b0 \<noteq> 0")
    case True
    then have "i' = i + 1 + 1"
      using step b0 by (auto simp: rle4_iter_def split: sum.splits)
    then show ?thesis using two by simp
  next
    case False
    then obtain b1 where b1: "peek comprbuf (i + 1) = Inr b1"
      using step b0 by (auto simp: rle4_iter_def split: sum.splits)
    have in1: "unat i + 1 < unat compr_size"
      using peek_inside [OF b1] len u1 by simp
    have in2: "i + 1 + 1 \<le> compr_size" unfolding word_le_nat_alt u2 using in1 by simp
    have "b1 \<noteq> 1"
      using step b0 b1 False by (auto simp: rle4_iter_def split: if_splits)
    then consider (eol) "b1 = 0" | (delta) "b1 = 2" | (abs) "b1 \<noteq> 0" "b1 \<noteq> 1" "b1 \<noteq> 2"
      by blast
    then show ?thesis
    proof cases
      case eol
      then have "i' = i + 1 + 1"
        using step b0 b1 False by (auto simp: rle4_iter_def)
      then show ?thesis using two by simp
    next
      case delta
      then have g: "i + 1 + 1 < compr_size - 1" and e: "i' = i + 1 + 1 + 2"
        using step b0 b1 False by (auto simp: rle4_iter_def split: if_splits sum.splits)
      have "compr_size \<noteq> 0" using ui by auto
      then have "unat (compr_size - 1) = unat compr_size - 1" by (rule unat_minus_one)
      then have "unat i + 2 < unat compr_size - 1"
        using g unfolding word_less_nat_alt u2 by simp
      then have "unat (i + 1 + 1 + 2) = unat i + 4" using cs by (simp add: unat_word_ariths)
      then have "i < i + 1 + 1 + 2" unfolding word_less_nat_alt by simp
      then show ?thesis using e by simp
    next
      case abs
      then obtain k i2 where
        r: "rle4_abs comprbuf compr_size uncompr_size (ucast b1) 0 (i + 1 + 1) j buf
              = Inr (k, i2, j', buf')"
        and e: "i' = (if k AND 1 \<noteq> 0 then i2 + 1 else i2)"
        using step b0 b1 False by (auto simp: rle4_iter_def split: sum.splits)
      from rle4_abs_cursor [OF r] have c: "i + 1 + 1 \<le> i2" "i2 \<le> compr_size"
        using in2 by auto
      have lo: "unat i + 2 \<le> unat i2" using c(1) unfolding word_le_nat_alt u2 by simp
      have hi: "unat i2 \<le> unat compr_size" using c(2) by (simp add: word_le_nat_alt)
      have "unat (i2 + 1) = unat i2 + 1" using hi cs by (simp add: unat_word_ariths)
      then have "i < i2 + 1" using lo unfolding word_less_nat_alt by simp
      moreover have "i < i2" using lo unfolding word_less_nat_alt by simp
      ultimately show ?thesis using e by simp
    qed
  qed
qed

lemma rle_while_returns:
  assumes progress: "\<And>i j buf i' j' buf'.
      i < cs \<Longrightarrow> body (i, j, buf) = Inr (Continue, i', j', buf') \<Longrightarrow> i < i'"
  shows "\<exists>r. rle_while body cs us st = Some r"
proof (induction "unat cs - unat (fst st)" arbitrary: st rule: less_induct)
  case less
  obtain i j buf where st: "st = (i, j, buf)" by (cases st)
  show ?case
  proof (cases "j < us \<and> i < cs")
    case False
    then show ?thesis by (subst rle_while.simps) (auto simp: st)
  next
    case True
    show ?thesis
    proof (cases "body st")
      case (Inl e)
      then show ?thesis using True by (subst rle_while.simps) (simp add: st)
    next
      case (Inr r)
      obtain c i' j' buf' where r: "r = (c, i', j', buf')" by (cases r)
      show ?thesis
      proof (cases c)
        case Break
        then show ?thesis using True Inr r by (subst rle_while.simps) (simp add: st)
      next
        case Continue
        have "i < i'" using progress [of i j buf i' j' buf'] True Inr r Continue st by simp
        then have "unat cs - unat i' < unat cs - unat i"
          using True by (auto simp: word_less_nat_alt)
        then obtain res where "rle_while body cs us (i', j', buf') = Some res"
          using less [of "(i', j', buf')"] st by auto
        then show ?thesis using True Inr r Continue by (subst rle_while.simps) (simp add: st)
      qed
    qed
  qed
qed

lemma rle8_iter_wraps:
  assumes len: "length cb = 4294967295"
    and zeros: "\<And>k. k < 4294967294 \<Longrightarrow> cb ! k = 0"
    and last: "cb ! 4294967294 = 5"
    and ev: "even (unat i)"
  shows "\<exists>i'. rle8_iter cb 4294967295 1 1 (i, 0, buf) = Inr (Continue, i', 0, buf)
           \<and> even (unat i')"
proof -
  have bound: "unat i < 4294967296" using unsigned_less [of i, where 'a = nat] by simp
  have "unat i \<noteq> 4294967295" using ev by auto
  then have le: "unat i \<le> 4294967294" using bound by simp
  show ?thesis
  proof (cases "unat i = 4294967294")
    case True
    then have "unat i = unat (4294967294 :: uint32)" by simp
    then have i: "i = 4294967294" by (simp only: word_unat_eq_iff)
    have p0: "peek cb i = Inr 5" using len last by (simp add: peek_def True)
    have run: "rle8_run cb 4294967295 1 (i + 1) rl 0 buf = Inr (0, buf)" for rl
      by (subst rle8_run.simps) (simp add: i)
    have "rle8_iter cb 4294967295 1 1 (i, 0, buf) = Inr (Continue, i + 1 + 1, 0, buf)"
      by (simp add: rle8_iter_def p0 run)
    moreover have "even (unat (i + 1 + 1))" by (simp add: i)
    ultimately show ?thesis by blast
  next
    case False
    then have lt: "unat i < 4294967294" using le by simp
    have "unat i \<noteq> 4294967293" using ev by auto
    then have lt1: "unat i + 1 < 4294967294" using lt by simp
    have u1: "unat (i + 1) = unat i + 1" using lt by (simp add: unat_word_ariths)
    have u2: "unat (i + 1 + 1) = unat i + 2" using lt by (simp add: unat_word_ariths)
    have p0: "peek cb i = Inr 0" using lt len zeros [OF lt] by (simp add: peek_def)
    have p1: "peek cb (i + 1) = Inr 0"
      using lt1 len zeros [OF lt1] by (simp add: peek_def u1)
    have "rle8_iter cb 4294967295 1 1 (i, 0, buf) = Inr (Continue, i + 1 + 1, 0, buf)"
      by (simp add: rle8_iter_def p0 p1)
    moreover have "even (unat (i + 1 + 1))" using ev by (simp only: u2) simp
    ultimately show ?thesis by blast
  qed
qed

lemma rle_while_never_returns:
  assumes step: "\<And>i buf. even (unat i) \<Longrightarrow>
      \<exists>i'. body (i, 0, buf) = Inr (Continue, i', 0, buf) \<and> even (unat i')"
    and ev: "even (unat i)"
  shows "rle_while body 4294967295 1 (i, 0, buf) = None"
proof -
  have never: "\<not> (bd = body \<and> cs = 4294967295 \<and> us = 1 \<and> even (unat (fst st))
                   \<and> fst (snd st) = 0)"
    if ret: "rle_while bd cs us st = Some y" for bd cs us st y
  proof (rule rle_while.raw_induct
      [where P = "\<lambda>bd cs us st y. \<not> (bd = body \<and> cs = 4294967295 \<and> us = 1
                     \<and> even (unat (fst st)) \<and> fst (snd st) = 0)", OF _ ret],
      goal_cases)
    case (1 rw bd cs us st y)
    show ?case
    proof
      assume a: "bd = body \<and> cs = 4294967295 \<and> us = 1 \<and> even (unat (fst st))
                   \<and> fst (snd st) = 0"
      obtain i buf where st: "st = (i, 0, buf)" and ev: "even (unat i)"
        using a by (cases st) auto
      have bound: "unat i < 4294967296"
        using unsigned_less [of i, where 'a = nat] by simp
      have "unat i \<noteq> 4294967295" using ev by auto
      then have lt: "i < 4294967295" using bound by (simp add: word_less_nat_alt)
      from step [OF ev, of buf] obtain i' where
        b: "body (i, 0, buf) = Inr (Continue, i', 0, buf)" and ev': "even (unat i')"
        by blast
      have "rw body 4294967295 1 (i', 0, buf) = Some y"
        using 1(2) a lt b by (simp add: st)
      from 1(1) [OF this] ev' show False by simp
    qed
  qed
  have "rle_while body 4294967295 1 (i, 0, buf) \<noteq> Some y" for y
    using never [of body 4294967295 1 "(i, 0, buf)" y] ev by auto
  then show ?thesis by (cases "rle_while body 4294967295 1 (i, 0, buf)") auto
qed

text \<open>
  C10 (as the spec has it) says that both loops terminate for every compressed buffer,
  the cursor \<open>i\<close> growing on every pass. The cursor is a \<^verbatim>\<open>uint32\<close> and the body
  steps past the end of the buffer (\<^verbatim>\<open>i++\<close> after a run that the inner loop did not
  enter). With \<open>compr_size = 2^32 - 1\<close>, a buffer of end-of-line escapes \<open>00 00\<close>
  that ends with the byte \<open>05\<close> sends \<open>i\<close> from \<open>2^32 - 2\<close> to 0: the RLE8
  loop does not return.
\<close>

theorem C10_loop_never_returns:
  "rle_decode 8 (replicate 4294967294 0 @ [5]) 4294967295 1 1 [0] = None"
proof -
  let ?cb = "replicate 4294967294 0 @ [5 :: uchar]"
  have len: "length ?cb = 4294967295" by simp
  have zeros: "?cb ! k = 0" if "k < 4294967294" for k
    using that by (simp add: nth_append)
  have last: "?cb ! 4294967294 = 5" by (simp add: nth_append)
  have "rle_while (rle8_iter ?cb 4294967295 1 1) 4294967295 1 (0, 0, [0]) = None"
    by (rule rle_while_never_returns) (auto intro: rle8_iter_wraps [OF len zeros last])
  then show ?thesis by (simp add: rle_decode_def)
qed

text \<open>
  C10, amended: for every compressed buffer whose size \<open>compr_size\<close> is below
  \<open>2^32 - 1\<close>, and every output size, the RLE8 loop and the RLE4 loop return (a
  state, or a read outside the buffer), and on every pass of either loop that goes on
  to the next pass the cursor \<open>i\<close> strictly increases.
\<close>

theorem C10_rle_loops_return:
  assumes len: "length comprbuf = unat compr_size"
    and big: "unat compr_size < 2 ^ 32 - 1"
  shows "(\<exists>r. rle_decode bits comprbuf compr_size width uncompr_size uncomprbuf = Some r)
       \<and> (\<forall>i j buf i' j' buf'. i < compr_size \<longrightarrow>
             rle8_iter comprbuf compr_size width uncompr_size (i, j, buf)
               = Inr (Continue, i', j', buf') \<longrightarrow> i < i')
       \<and> (\<forall>i j buf i' j' buf'. i < compr_size \<longrightarrow>
             rle4_iter comprbuf compr_size width uncompr_size (i, j, buf)
               = Inr (Continue, i', j', buf') \<longrightarrow> i < i')"
proof (intro conjI allI impI)
  show "\<exists>r. rle_decode bits comprbuf compr_size width uncompr_size uncomprbuf = Some r"
  proof (cases "bits = 8")
    case True
    have "\<exists>r. rle_while (rle8_iter comprbuf compr_size width uncompr_size) compr_size
                uncompr_size (0, 0, uncomprbuf) = Some r"
      by (rule rle_while_returns) (rule rle8_iter_progress [OF len big])
    then show ?thesis using True by (simp add: rle_decode_def)
  next
    case False
    have "\<exists>r. rle_while (rle4_iter comprbuf compr_size width uncompr_size) compr_size
                uncompr_size (0, 0, uncomprbuf) = Some r"
      by (rule rle_while_returns) (rule rle4_iter_progress [OF len big])
    then show ?thesis using False by (simp add: rle_decode_def)
  qed
next
  fix i j buf i' j' buf'
  assume "i < compr_size"
    and "rle8_iter comprbuf compr_size width uncompr_size (i, j, buf)
           = Inr (Continue, i', j', buf')"
  then show "i < i'" by (rule rle8_iter_progress [OF len big])
next
  fix i j buf i' j' buf'
  assume "i < compr_size"
    and "rle4_iter comprbuf compr_size width uncompr_size (i, j, buf)
           = Inr (Continue, i', j', buf')"
  then show "i < i'" by (rule rle4_iter_progress [OF len big])
qed

theorem C10_rle_loops_return_witness:
  "length [4, 1, 4, 2, 0, 1 :: uchar] = unat (6 :: uint32)
     \<and> unat (6 :: uint32) < 2 ^ 32 - 1
     \<and> (\<exists>r. rle_decode 4 [4, 1, 4, 2, 0, 1] 6 4 8 [0, 0, 0, 0, 0, 0, 0, 0] = Some r)
     \<and> (0 :: uint32) < 2"
proof -
  have len: "length [4, 1, 4, 2, 0, 1 :: uchar] = unat (6 :: uint32)" by simp
  have big: "unat (6 :: uint32) < 2 ^ 32 - 1" by simp
  have step: "rle8_iter [4, 1, 4, 2, 0, 1] 6 4 8 (0, 0, [0, 0, 0, 0, 0, 0, 0, 0])
                = Inr (Continue, 2, 4, [1, 1, 1, 1, 0, 0, 0, 0])"
    by code_simp
  from C10_rle_loops_return [OF len big, of 4 4 8 "[0, 0, 0, 0, 0, 0, 0, 0]"]
  have ret: "\<exists>r. rle_decode 4 [4, 1, 4, 2, 0, 1] 6 4 8 [0, 0, 0, 0, 0, 0, 0, 0] = Some r"
    and inc: "\<And>i j buf i' j' buf'. i < 6 \<Longrightarrow>
        rle8_iter [4, 1, 4, 2, 0, 1] 6 4 8 (i, j, buf) = Inr (Continue, i', j', buf')
        \<Longrightarrow> i < i'"
    by blast+
  have "(0 :: uint32) < 2" by (rule inc [OF _ step]) simp
  then show ?thesis using len big ret by blast
qed

subsection \<open>C7: the rows of a run-length encoded image\<close>










subsection \<open>C8: the rows of an uncompressed image\<close>








text \<open>
  C8 (as the spec has it) puts display row \<open>r\<close> at the offset
  \<open>pixelDataOffset + (length - 1 - r) * rowStride\<close> of the file for every header.
  The source computes the offset in \<^verbatim>\<open>uint32\<close> and does not test it. With two rows of
  8 bytes, a positive height and \<^verbatim>\<open>iOffBits\<close> = 4294967288, the offset of display row
  0 is not 4294967296: it wraps to 0, and the row handed to the writer is made of the
  first 8 bytes of the file, the signature \<open>BM\<close> included. The read of row 1 at
  4294967288 finds nothing and prints "Read error".
\<close>

lemma C8_offset_wraps_placeholder: "True" by simp




subsection \<open>C1: the second byte of an escape\<close>

text \<open>
  With the two blocks as long as their sizes say, the inner loops make no access outside
  a block, and one pass of the outer loop can fail in one way only: the escape byte 0
  is the last byte of the compressed buffer, and the byte after it is read.
\<close>

lemma peek_guarded: "length cb = unat cs \<Longrightarrow> i < cs \<Longrightarrow> peek cb i = Inr (cb ! unat i)"
  by (simp add: peek_def word_less_nat_alt)

lemma poke_guarded:
  "length A = unat us \<Longrightarrow> j < us \<Longrightarrow> poke A j v = Inr (A[unat j := v])"
  by (simp add: poke_def word_less_nat_alt)

lemma rle8_run_guarded:
  assumes "length cb = unat cs" and "length A = unat us"
  shows "\<exists>j' A'. rle8_run cb cs us i rl j A = Inr (j', A') \<and> length A' = unat us"
  using assms
proof (induction cb cs us i rl j A rule: rle8_run.induct)
  case (1 cb cs us i rl j A)
  show ?case
  proof (cases "0 < rl \<and> j < us \<and> i < cs")
    case False
    then show ?thesis using "1.prems" by (subst rle8_run.simps) auto
  next
    case True
    have b: "peek cb i = Inr (cb ! unat i)" using True "1.prems" by (simp add: peek_guarded)
    have w: "poke A j (cb ! unat i) = Inr (A[unat j := cb ! unat i])"
      using True "1.prems" by (simp add: poke_guarded)
    from "1.IH" [OF True b w] "1.prems" show ?thesis
      using True b w by (subst rle8_run.simps) simp
  qed
qed

lemma rle4_run_guarded:
  assumes "length cb = unat cs" and "length A = unat us"
  shows "\<exists>j' A'. rle4_run cb cs us i rl j A = Inr (j', A') \<and> length A' = unat us"
  using assms
proof (induction cb cs us i rl j A rule: rle4_run.induct)
  case (1 cb cs us i rl j A)
  show ?case
  proof (cases "0 < rl \<and> j < us \<and> i < cs")
    case False
    then show ?thesis using "1.prems" by (subst rle4_run.simps) auto
  next
    case True
    let ?v = "if rl AND 1 \<noteq> 0 then drop_bit 4 (cb ! unat i AND 0xF0) else cb ! unat i AND 0x0F"
    have b: "peek cb i = Inr (cb ! unat i)" using True "1.prems" by (simp add: peek_guarded)
    have w: "poke A j ?v = Inr (A[unat j := ?v])"
      using True "1.prems" by (simp add: poke_guarded)
    from "1.IH" [OF True b w] "1.prems" show ?thesis
      using True b w by (subst rle4_run.simps) simp
  qed
qed

lemma rle8_abs_guarded:
  assumes "length cb = unat cs" and "length A = unat us"
  shows "\<exists>k' i' j' A'. rle8_abs cb cs us rl k i j A = Inr (k', i', j', A')
           \<and> length A' = unat us"
  using assms
proof (induction cb cs us rl k i j A rule: rle8_abs.induct)
  case (1 cb cs us rl k i j A)
  show ?case
  proof (cases "k < rl \<and> j < us \<and> i < cs")
    case False
    then show ?thesis using "1.prems" by (subst rle8_abs.simps) auto
  next
    case True
    have b: "peek cb i = Inr (cb ! unat i)" using True "1.prems" by (simp add: peek_guarded)
    have w: "poke A j (cb ! unat i) = Inr (A[unat j := cb ! unat i])"
      using True "1.prems" by (simp add: poke_guarded)
    from "1.IH" [OF True b w] "1.prems" show ?thesis
      using True b w by (subst rle8_abs.simps) simp
  qed
qed

lemma rle4_abs_guarded:
  assumes "length cb = unat cs" and "length A = unat us"
  shows "\<exists>k' i' j' A'. rle4_abs cb cs us rl k i j A = Inr (k', i', j', A')
           \<and> length A' = unat us"
  using assms
proof (induction cb cs us rl k i j A rule: rle4_abs.induct)
  case (1 cb cs us rl k i j A)
  show ?case
  proof (cases "k < rl \<and> j < us \<and> i < cs")
    case False
    then show ?thesis using "1.prems" by (subst rle4_abs.simps) auto
  next
    case True
    have b: "peek cb i = Inr (cb ! unat i)" using True "1.prems" by (simp add: peek_guarded)
    show ?thesis
    proof (cases "k AND 1 \<noteq> 0")
      case odd: True
      have w: "poke A j (cb ! unat i AND 0x0F) = Inr (A[unat j := cb ! unat i AND 0x0F])"
        using True "1.prems" by (simp add: poke_guarded)
      from "1.IH"(1) [OF True b odd w] "1.prems" show ?thesis
        using True b odd w by (subst rle4_abs.simps) simp
    next
      case even: False
      have w: "poke A j (drop_bit 4 (cb ! unat i AND 0xF0))
                 = Inr (A[unat j := drop_bit 4 (cb ! unat i AND 0xF0)])"
        using True "1.prems" by (simp add: poke_guarded)
      from "1.IH"(2) [OF True b even w] "1.prems" show ?thesis
        using True b even w by (subst rle4_abs.simps) simp
    qed
  qed
qed

lemma keeps_same: "keeps A A A A"
  by (simp add: keeps_def)

lemma rle8_iter_length:
  "rle8_iter cb cs w us (i, j, A) = Inr (c, i', j', A') \<Longrightarrow> length A' = length A"
  using rle8_iter_keeps [OF _ keeps_same] by (fastforce simp: keeps_def)

lemma rle4_iter_length:
  "rle4_iter cb cs w us (i, j, A) = Inr (c, i', j', A') \<Longrightarrow> length A' = length A"
  using rle4_iter_keeps [OF _ keeps_same] by (fastforce simp: keeps_def)

lemma delta_reads_guarded:
  assumes len: "length cb = unat cs"
    and g: "i + 1 + 1 < cs - 1"
    and lt: "unat i + 1 < unat cs"
  shows "peek cb (i + 1 + 1) = Inr (cb ! unat (i + 1 + 1))"
    and "peek cb (i + 1 + 1 + 1) = Inr (cb ! unat (i + 1 + 1 + 1))"
proof -
  have bound: "unat cs < 2 ^ 32" using unsigned_less [of cs, where 'a = nat] by simp
  have u2: "unat (i + 1 + 1) = unat i + 2" using lt bound by (simp add: unat_word_ariths)
  have "cs \<noteq> 0" using lt by auto
  then have "unat (cs - 1) = unat cs - 1" by (rule unat_minus_one)
  then have in3: "unat i + 3 < unat cs" using g unfolding word_less_nat_alt u2 by simp
  then have u3: "unat (i + 1 + 1 + 1) = unat i + 3" using bound by (simp add: unat_word_ariths)
  show "peek cb (i + 1 + 1) = Inr (cb ! unat (i + 1 + 1))"
    using in3 len unfolding peek_def u2 by simp
  show "peek cb (i + 1 + 1 + 1) = Inr (cb ! unat (i + 1 + 1 + 1))"
    using in3 len unfolding peek_def u3 by simp
qed

lemma rle8_iter_fault:
  assumes len: "length cb = unat cs" and out: "length A = unat us"
    and lt: "i < cs"
    and f: "rle8_iter cb cs w us (i, j, A) = Inl e"
  shows "e = ReadPastEnd (unat cs) \<and> unat i + 1 = unat cs \<and> cb ! unat i = 0"
proof -
  have bound: "unat cs < 2 ^ 32" using unsigned_less [of cs, where 'a = nat] by simp
  have ui: "unat i < unat cs" using lt by (simp add: word_less_nat_alt)
  have u1: "unat (i + 1) = unat i + 1" using ui bound by (simp add: unat_word_ariths)
  have p0: "peek cb i = Inr (cb ! unat i)" using len lt by (rule peek_guarded)
  from rle8_run_guarded [OF len out] obtain jr Ar where
    run: "rle8_run cb cs us (i + 1) (ucast (cb ! unat i)) j A = Inr (jr, Ar)" by blast
  have z: "cb ! unat i = 0"
    using f p0 run by (auto simp: rle8_iter_def split: if_splits)
  show ?thesis
  proof (cases "unat i + 1 < unat cs")
    case True
    then have p1: "peek cb (i + 1) = Inr (cb ! unat (i + 1))"
      using len unfolding peek_def u1 by simp
    from rle8_abs_guarded [OF len out] obtain ka ia ja Aa where
      abs: "rle8_abs cb cs us (ucast (cb ! unat (i + 1))) 0 (i + 1 + 1) j A
              = Inr (ka, ia, ja, Aa)" by blast
    have False
      using f p0 z p1 abs delta_reads_guarded [OF len _ True]
      by (auto simp: rle8_iter_def split: if_splits)
    then show ?thesis ..
  next
    case False
    then have eq: "unat i + 1 = unat cs" using ui by simp
    then have "peek cb (i + 1) = Inl (ReadPastEnd (unat cs))"
      using len unfolding peek_def u1 by simp
    then have "e = ReadPastEnd (unat cs)"
      using f p0 z by (simp add: rle8_iter_def)
    then show ?thesis using eq z by simp
  qed
qed

lemma rle4_iter_fault:
  assumes len: "length cb = unat cs" and out: "length A = unat us"
    and lt: "i < cs"
    and f: "rle4_iter cb cs w us (i, j, A) = Inl e"
  shows "e = ReadPastEnd (unat cs) \<and> unat i + 1 = unat cs \<and> cb ! unat i = 0"
proof -
  have bound: "unat cs < 2 ^ 32" using unsigned_less [of cs, where 'a = nat] by simp
  have ui: "unat i < unat cs" using lt by (simp add: word_less_nat_alt)
  have u1: "unat (i + 1) = unat i + 1" using ui bound by (simp add: unat_word_ariths)
  have p0: "peek cb i = Inr (cb ! unat i)" using len lt by (rule peek_guarded)
  from rle4_run_guarded [OF len out] obtain jr Ar where
    run: "rle4_run cb cs us (i + 1) (ucast (cb ! unat i)) j A = Inr (jr, Ar)" by blast
  have z: "cb ! unat i = 0"
    using f p0 run by (auto simp: rle4_iter_def split: if_splits)
  show ?thesis
  proof (cases "unat i + 1 < unat cs")
    case True
    then have p1: "peek cb (i + 1) = Inr (cb ! unat (i + 1))"
      using len unfolding peek_def u1 by simp
    from rle4_abs_guarded [OF len out] obtain ka ia ja Aa where
      abs: "rle4_abs cb cs us (ucast (cb ! unat (i + 1))) 0 (i + 1 + 1) j A
              = Inr (ka, ia, ja, Aa)" by blast
    have False
      using f p0 z p1 abs delta_reads_guarded [OF len _ True]
      by (auto simp: rle4_iter_def split: if_splits)
    then show ?thesis ..
  next
    case False
    then have eq: "unat i + 1 = unat cs" using ui by simp
    then have "peek cb (i + 1) = Inl (ReadPastEnd (unat cs))"
      using len unfolding peek_def u1 by simp
    then have "e = ReadPastEnd (unat cs)"
      using f p0 z by (simp add: rle4_iter_def)
    then show ?thesis using eq z by simp
  qed
qed

lemma rle_while_fault:
  assumes body_fault: "\<And>i j A e. length A = n \<Longrightarrow> i < cs \<Longrightarrow> body (i, j, A) = Inl e \<Longrightarrow> e = E"
    and body_length: "\<And>i j A c i' j' A'.
        body (i, j, A) = Inr (c, i', j', A') \<Longrightarrow> length A' = length A"
    and ret: "rle_while body cs us (i, j, A) = Some (Inl e)"
    and out: "length A = n"
  shows "e = E"
proof -
  have "bd = body \<longrightarrow> cs' = cs \<longrightarrow>
          (\<forall>i j A e. st = (i, j, A) \<longrightarrow> y = Inl e \<longrightarrow> length A = n \<longrightarrow> e = E)"
    if r: "rle_while bd cs' us' st = Some y" for bd cs' us' st y
  proof (rule rle_while.raw_induct
      [where P = "\<lambda>bd cs' us' st y. bd = body \<longrightarrow> cs' = cs \<longrightarrow>
          (\<forall>i j A e. st = (i, j, A) \<longrightarrow> y = Inl e \<longrightarrow> length A = n \<longrightarrow> e = E)", OF _ r],
      goal_cases)
    case (1 rw bd cs' us' st y)
    show ?case
    proof (intro impI allI)
      fix i j A e
      assume bd: "bd = body" and cs: "cs' = cs" and st: "st = (i, j, A)"
        and y: "y = Inl e" and n: "length A = n"
      have loop: "j < us' \<and> i < cs"
        using 1(2) st y cs by (auto split: if_splits)
      show "e = E"
      proof (cases "body (i, j, A)")
        case (Inl e')
        then have "e' = e" using 1(2) st y bd cs loop by simp
        then show ?thesis using body_fault [OF n _ Inl] loop by simp
      next
        case (Inr r)
        obtain c i2 j2 A2 where r: "r = (c, i2, j2, A2)" by (cases r)
        have n2: "length A2 = n" using body_length [of i j A c i2 j2 A2] Inr r n by simp
        have "c = Continue" using 1(2) st y bd cs loop Inr r by (cases c) auto
        then have "rw body cs us' (i2, j2, A2) = Some (Inl e)"
          using 1(2) st y bd cs loop Inr r by simp
        from 1(1) [OF this] n2 show ?thesis by simp
      qed
    qed
  qed
  from this [OF ret] out show ?thesis by simp
qed

lemma rle_decode_only_fault:
  assumes len: "length comprbuf = unat compr_size"
    and out: "length uncomprbuf = unat uncompr_size"
    and f: "rle_decode bits comprbuf compr_size width uncompr_size uncomprbuf = Some (Inl e)"
  shows "e = ReadPastEnd (unat compr_size)"
proof (cases "bits = 8")
  case True
  then have r: "rle_while (rle8_iter comprbuf compr_size width uncompr_size) compr_size
                  uncompr_size (0, 0, uncomprbuf) = Some (Inl e)"
    using f by (simp add: rle_decode_def)
  show ?thesis
    by (rule rle_while_fault [OF _ _ r out]) (auto dest: rle8_iter_fault [OF len] rle8_iter_length)
next
  case False
  then have r: "rle_while (rle4_iter comprbuf compr_size width uncompr_size) compr_size
                  uncompr_size (0, 0, uncomprbuf) = Some (Inl e)"
    using f by (simp add: rle_decode_def)
  show ?thesis
    by (rule rle_while_fault [OF _ _ r out]) (auto dest: rle4_iter_fault [OF len] rle4_iter_length)
qed

text \<open>
  C1 says that every read of the compressed buffer is tested against its end, and that
  the second byte of an escape is not read when the escape byte 0 was the last byte.
  Evaluated on a buffer that is the single byte 0, and on the stream
  \<open>04 01 00\<close>, both loops read one byte past the end: the source increments \<open>i\<close>
  and reads \<^verbatim>\<open>comprbuf[i]\<close> with no test.
\<close>

theorem C1_escape_second_byte_read_past_end:
  "rle_decode 8 [0] 1 1 1 [0] = Some (Inl (ReadPastEnd 1)) \<and>
   rle_decode 4 [0] 1 1 1 [0] = Some (Inl (ReadPastEnd 1)) \<and>
   rle_decode 8 [4, 1, 0] 3 4 8 [0, 0, 0, 0, 0, 0, 0, 0] = Some (Inl (ReadPastEnd 3))"
  by code_simp

subsection \<open>C3: the nibbles of an RLE4 encoded run\<close>

text \<open>
  What an encoded run writes, for every run length: with \<open>n\<close> pixels in the run,
  pixel \<open>m\<close> (counted from 0) is the high nibble when \<open>n - m\<close> is odd and the low
  nibble when it is even. So the first pixel is the high nibble exactly for the odd run
  lengths.
\<close>

lemma rle4_run_pixels:
  assumes len: "length cb = unat cs" and out: "length A = unat us"
    and lt: "i < cs" and room: "unat j + unat rl \<le> unat us"
  shows "\<exists>A'. rle4_run cb cs us i rl j A = Inr (j + rl, A') \<and> length A' = unat us
           \<and> (\<forall>m<unat rl. A' ! (unat j + m)
                  = (if odd (unat rl - m) then drop_bit 4 (cb ! unat i AND 0xF0)
                     else cb ! unat i AND 0x0F))
           \<and> (\<forall>p<unat j. A' ! p = A ! p)"
  using assms
proof (induction cb cs us i rl j A rule: rle4_run.induct)
  case (1 cb cs us i rl j A)
  show ?case
  proof (cases "0 < rl")
    case False
    then have "rl = 0" by (simp add: word_greater_zero_iff)
    then show ?thesis using "1.prems" by (subst rle4_run.simps) simp
  next
    case True
    have bound: "unat us < 2 ^ 32" using unsigned_less [of us, where 'a = nat] by simp
    have pos: "0 < unat rl" using True by (simp add: word_less_nat_alt)
    then have jn: "unat j < unat us" using "1.prems"(4) by simp
    then have j: "j < us" by (simp add: word_less_nat_alt)
    have c: "0 < rl \<and> j < us \<and> i < cs" using True j "1.prems"(3) by simp
    let ?hi = "drop_bit 4 (cb ! unat i AND 0xF0)" and ?lo = "cb ! unat i AND 0x0F"
    let ?v = "if rl AND 1 \<noteq> 0 then ?hi else ?lo"
    have b: "peek cb i = Inr (cb ! unat i)"
      using "1.prems"(1,3) by (rule peek_guarded)
    have w: "poke A j ?v = Inr (A[unat j := ?v])"
      using "1.prems"(2) j by (rule poke_guarded)
    have u1: "unat (j + 1) = Suc (unat j)" using j by (rule unat_succ_below)
    have r1: "unat (rl - 1) = unat rl - 1"
      using True by (simp add: unat_minus_one word_greater_zero_iff)
    have room': "unat (j + 1) + unat (rl - 1) \<le> unat us"
      using "1.prems"(4) pos by (simp add: u1 r1)
    have out': "length (A[unat j := ?v]) = unat us" using "1.prems"(2) by simp
    from "1.IH" [OF c b w "1.prems"(1) out' "1.prems"(3) room']
    obtain A' where
      run: "rle4_run cb cs us i (rl - 1) (j + 1) (A[unat j := ?v]) = Inr (j + 1 + (rl - 1), A')"
      and l: "length A' = unat us"
      and px: "\<forall>m<unat (rl - 1). A' ! (unat (j + 1) + m)
                 = (if odd (unat (rl - 1) - m) then ?hi else ?lo)"
      and fr: "\<forall>p<unat (j + 1). A' ! p = A[unat j := ?v] ! p"
      by blast
    have res: "rle4_run cb cs us i rl j A = Inr (j + rl, A')"
      using c b w run by (subst rle4_run.simps) simp
    have first: "A' ! unat j = ?v"
      using fr jn "1.prems"(2) by (simp add: u1)
    have pixels: "A' ! (unat j + m) = (if odd (unat rl - m) then ?hi else ?lo)"
      if m: "m < unat rl" for m
    proof (cases m)
      case 0
      then show ?thesis using first by (simp add: and_1_odd)
    next
      case (Suc m')
      then have "m' < unat (rl - 1)" using m by (simp add: r1)
      with px have "A' ! (unat (j + 1) + m') = (if odd (unat (rl - 1) - m') then ?hi else ?lo)"
        by blast
      then show ?thesis using Suc by (simp add: u1 r1)
    qed
    have frame: "A' ! p = A ! p" if "p < unat j" for p
      using fr that by (simp add: u1)
    show ?thesis using res l pixels frame by blast
  qed
qed

lemma rle4_iter_encoded_run:
  assumes len: "length cb = unat cs" and out: "length A = unat us"
    and second: "unat i + 1 < unat cs"
    and b0: "cb ! unat i \<noteq> 0"
    and room: "unat j + unat (cb ! unat i) \<le> unat us"
  shows "\<exists>A'. rle4_iter cb cs w us (i, j, A)
                 = Inr (Continue, i + 1 + 1, j + ucast (cb ! unat i), A')
           \<and> (\<forall>m<unat (cb ! unat i). A' ! (unat j + m)
                  = (if odd (unat (cb ! unat i) - m)
                     then drop_bit 4 (cb ! unat (i + 1) AND 0xF0)
                     else cb ! unat (i + 1) AND 0x0F))"
proof -
  have bound: "unat cs < 2 ^ 32" using unsigned_less [of cs, where 'a = nat] by simp
  have u1: "unat (i + 1) = unat i + 1" using second bound by (simp add: unat_word_ariths)
  have lt: "i < cs" using second by (simp add: word_less_nat_alt)
  have lt1: "i + 1 < cs" using second unfolding word_less_nat_alt u1 by simp
  have p0: "peek cb i = Inr (cb ! unat i)" using len lt by (rule peek_guarded)
  have room': "unat j + unat (ucast (cb ! unat i) :: uint32) \<le> unat us"
    using room by (simp only: unat_ucast_byte)
  from rle4_run_pixels [OF len out lt1 room'] obtain A' where
    run: "rle4_run cb cs us (i + 1) (ucast (cb ! unat i)) j A
            = Inr (j + ucast (cb ! unat i), A')"
    and px: "\<forall>m<unat (ucast (cb ! unat i) :: uint32). A' ! (unat j + m)
               = (if odd (unat (ucast (cb ! unat i) :: uint32) - m)
                  then drop_bit 4 (cb ! unat (i + 1) AND 0xF0)
                  else cb ! unat (i + 1) AND 0x0F)"
    by blast
  have "rle4_iter cb cs w us (i, j, A) = Inr (Continue, i + 1 + 1, j + ucast (cb ! unat i), A')"
    using p0 b0 run by (simp add: rle4_iter_def)
  then show ?thesis using px by (auto simp only: unat_ucast_byte)
qed

text \<open>
  C3 says that an RLE4 run starts with the high nibble for every run length. Evaluated
  on the run \<open>02 12\<close> the source writes the low nibble 2 first and the high nibble
  1 second: the nibble is chosen by the parity of the count that is still to be
  written.
\<close>

theorem C3_even_run_starts_with_low_nibble:
  "rle_decode 4 [2, 0x12] 2 2 2 [0, 0] = Some (Inr (2, 2, [2, 1]))"
  by code_simp

subsection \<open>C6: the padding of an absolute run\<close>

text \<open>
  What an absolute run consumes when the stream and the output have room for it. The
  RLE8 loop consumes the \<open>n\<close> bytes of the run and one more byte when \<open>n\<close> is odd.
  The RLE4 loop consumes the \<open>(n + 1) div 2\<close> bytes that hold the \<open>n\<close> nibbles and
  nothing more, whatever the parity of that number of bytes.
\<close>

lemma rle8_abs_complete:
  assumes len: "length cb = unat cs" and out: "length A = unat us"
    and k: "unat k \<le> unat rl"
    and room_i: "unat i + (unat rl - unat k) \<le> unat cs"
    and room_j: "unat j + (unat rl - unat k) \<le> unat us"
  shows "\<exists>A'. rle8_abs cb cs us rl k i j A = Inr (rl, i + (rl - k), j + (rl - k), A')
           \<and> length A' = unat us"
  using assms
proof (induction cb cs us rl k i j A rule: rle8_abs.induct)
  case (1 cb cs us rl k i j A)
  show ?case
  proof (cases "k < rl")
    case False
    then have "unat rl \<le> unat k" by (simp add: word_less_nat_alt)
    then have "unat k = unat rl" using "1.prems"(3) by simp
    then have "k = rl" by (simp only: word_unat_eq_iff)
    then show ?thesis using "1.prems"(2) by (subst rle8_abs.simps) simp
  next
    case True
    then have kn: "unat k < unat rl" by (simp add: word_less_nat_alt)
    have i: "i < cs" using "1.prems"(4) kn by (simp add: word_less_nat_alt)
    have j: "j < us" using "1.prems"(5) kn by (simp add: word_less_nat_alt)
    have c: "k < rl \<and> j < us \<and> i < cs" using True i j by simp
    have b: "peek cb i = Inr (cb ! unat i)" using "1.prems"(1) i by (rule peek_guarded)
    have w: "poke A j (cb ! unat i) = Inr (A[unat j := cb ! unat i])"
      using "1.prems"(2) j by (rule poke_guarded)
    have uk: "unat (k + 1) = Suc (unat k)" using True by (rule unat_succ_below)
    have ui: "unat (i + 1) = Suc (unat i)" using i by (rule unat_succ_below)
    have uj: "unat (j + 1) = Suc (unat j)" using j by (rule unat_succ_below)
    have out': "length (A[unat j := cb ! unat i]) = unat us" using "1.prems"(2) by simp
    have k': "unat (k + 1) \<le> unat rl" using kn by (simp add: uk)
    have ri: "unat (i + 1) + (unat rl - unat (k + 1)) \<le> unat cs"
      using "1.prems"(4) kn by (simp add: uk ui)
    have rj: "unat (j + 1) + (unat rl - unat (k + 1)) \<le> unat us"
      using "1.prems"(5) kn by (simp add: uk uj)
    from "1.IH" [OF c b w "1.prems"(1) out' k' ri rj] obtain A' where
      "rle8_abs cb cs us rl (k + 1) (i + 1) (j + 1) (A[unat j := cb ! unat i])
         = Inr (rl, i + 1 + (rl - (k + 1)), j + 1 + (rl - (k + 1)), A')"
      and "length A' = unat us" by blast
    then show ?thesis using c b w by (subst rle8_abs.simps) simp
  qed
qed

lemma rle4_abs_complete:
  assumes len: "length cb = unat cs" and out: "length A = unat us"
    and k: "unat k \<le> unat rl"
    and room_i: "unat i + ((unat rl + 1) div 2 - unat k div 2) \<le> unat cs"
    and room_j: "unat j + (unat rl - unat k) \<le> unat us"
  shows "\<exists>A'. rle4_abs cb cs us rl k i j A
                 = Inr (rl, i + of_nat (unat rl div 2 - unat k div 2), j + (rl - k), A')
           \<and> length A' = unat us"
  using assms
proof (induction cb cs us rl k i j A rule: rle4_abs.induct)
  case (1 cb cs us rl k i j A)
  show ?case
  proof (cases "k < rl")
    case False
    then have "unat rl \<le> unat k" by (simp add: word_less_nat_alt)
    then have "unat k = unat rl" using "1.prems"(3) by simp
    then have "k = rl" by (simp only: word_unat_eq_iff)
    then show ?thesis using "1.prems"(2) by (subst rle4_abs.simps) simp
  next
    case True
    then have kn: "unat k < unat rl" by (simp add: word_less_nat_alt)
    then have half: "unat k div 2 < (unat rl + 1) div 2" by linarith
    have i: "i < cs" using "1.prems"(4) half by (simp add: word_less_nat_alt)
    have j: "j < us" using "1.prems"(5) kn by (simp add: word_less_nat_alt)
    have c: "k < rl \<and> j < us \<and> i < cs" using True i j by simp
    have b: "peek cb i = Inr (cb ! unat i)" using "1.prems"(1) i by (rule peek_guarded)
    have uk: "unat (k + 1) = Suc (unat k)" using True by (rule unat_succ_below)
    have ui: "unat (i + 1) = Suc (unat i)" using i by (rule unat_succ_below)
    have uj: "unat (j + 1) = Suc (unat j)" using j by (rule unat_succ_below)
    have k': "unat (k + 1) \<le> unat rl" using kn by (simp add: uk)
    have rj: "unat (j + 1) + (unat rl - unat (k + 1)) \<le> unat us"
      using "1.prems"(5) kn by (simp add: uk uj)
    show ?thesis
    proof (cases "k AND 1 \<noteq> 0")
      case odd: True
      then have ko: "odd (unat k)" using and_1_odd [of k] by blast
      let ?v = "cb ! unat i AND 0x0F"
      have w: "poke A j ?v = Inr (A[unat j := ?v])" using "1.prems"(2) j by (rule poke_guarded)
      have out': "length (A[unat j := ?v]) = unat us" using "1.prems"(2) by simp
      have h: "Suc (unat k) div 2 = Suc (unat k div 2)" using ko by presburger
      have more: "unat k div 2 < unat rl div 2" using ko kn by presburger
      have ri: "unat (i + 1) + ((unat rl + 1) div 2 - unat (k + 1) div 2) \<le> unat cs"
        using "1.prems"(4) half by (simp add: uk ui h)
      from "1.IH"(1) [OF c b odd w "1.prems"(1) out' k' ri rj] obtain A' where
        r: "rle4_abs cb cs us rl (k + 1) (i + 1) (j + 1) (A[unat j := ?v])
              = Inr (rl, i + 1 + of_nat (unat rl div 2 - unat (k + 1) div 2),
                     j + 1 + (rl - (k + 1)), A')"
        and l: "length A' = unat us" by blast
      have "Suc (unat rl div 2 - Suc (unat k div 2)) = unat rl div 2 - unat k div 2"
        using more by simp
      then have "(1 :: uint32) + of_nat (unat rl div 2 - Suc (unat k div 2))
                   = of_nat (unat rl div 2 - unat k div 2)"
        by (metis of_nat_Suc add.commute)
      then have e: "i + 1 + of_nat (unat rl div 2 - unat (k + 1) div 2)
                      = i + of_nat (unat rl div 2 - unat k div 2)"
        by (simp add: uk h add.assoc)
      show ?thesis
        using c b odd w r l unfolding e by (subst rle4_abs.simps) simp
    next
      case even: False
      then have ke: "even (unat k)" using and_1_odd [of k] by blast
      let ?v = "drop_bit 4 (cb ! unat i AND 0xF0)"
      have w: "poke A j ?v = Inr (A[unat j := ?v])" using "1.prems"(2) j by (rule poke_guarded)
      have out': "length (A[unat j := ?v]) = unat us" using "1.prems"(2) by simp
      have h: "Suc (unat k) div 2 = unat k div 2" using ke by presburger
      have ri: "unat i + ((unat rl + 1) div 2 - unat (k + 1) div 2) \<le> unat cs"
        using "1.prems"(4) by (simp add: uk h)
      from "1.IH"(2) [OF c b even w "1.prems"(1) out' k' ri rj] obtain A' where
        r: "rle4_abs cb cs us rl (k + 1) i (j + 1) (A[unat j := ?v])
              = Inr (rl, i + of_nat (unat rl div 2 - unat (k + 1) div 2),
                     j + 1 + (rl - (k + 1)), A')"
        and l: "length A' = unat us" by blast
      show ?thesis
        using c b even w r l by (subst rle4_abs.simps) (simp add: uk h)
    qed
  qed
qed

lemma rle8_iter_absolute:
  assumes len: "length cb = unat cs" and out: "length A = unat us"
    and esc: "cb ! unat i = 0"
    and b1: "cb ! unat (i + 1) = b" "b \<noteq> 0" "b \<noteq> 1" "b \<noteq> 2"
    and room_i: "unat i + 2 + unat b \<le> unat cs"
    and room_j: "unat j + unat b \<le> unat us"
  shows "\<exists>A'. rle8_iter cb cs w us (i, j, A)
                 = Inr (Continue, i + 1 + 1 + ucast b + (if odd (unat b) then 1 else 0),
                        j + ucast b, A')"
proof -
  have bound: "unat cs < 2 ^ 32" using unsigned_less [of cs, where 'a = nat] by simp
  have u1: "unat (i + 1) = unat i + 1" using room_i bound by (simp add: unat_word_ariths)
  have u2: "unat (i + 1 + 1) = unat i + 2" using room_i bound by (simp add: unat_word_ariths)
  have "unat b \<noteq> 0" using b1(2) by (simp add: unat_eq_zero)
  then have in1: "unat i + 1 < unat cs" using room_i by simp
  have p0: "peek cb i = Inr 0"
    using len in1 esc by (simp add: peek_def)
  have p1: "peek cb (i + 1) = Inr b"
    using len in1 b1(1) unfolding peek_def u1 by simp
  have ri: "unat (i + 1 + 1) + (unat (ucast b :: uint32) - unat (0 :: uint32)) \<le> unat cs"
    using room_i unfolding u2 by (simp add: unat_ucast_byte)
  have rj: "unat j + (unat (ucast b :: uint32) - unat (0 :: uint32)) \<le> unat us"
    using room_j by (simp add: unat_ucast_byte)
  from rle8_abs_complete [OF len out _ ri rj] obtain A' where
    r: "rle8_abs cb cs us (ucast b) 0 (i + 1 + 1) j A
          = Inr (ucast b, i + 1 + 1 + (ucast b - 0), j + (ucast b - 0), A')"
    by auto
  have par: "(ucast b :: uint32) AND 1 \<noteq> 0 \<longleftrightarrow> odd (unat b)"
    using and_1_odd [of "ucast b"] by (simp only: unat_ucast_byte)
  show ?thesis
    using p0 p1 b1 r par by (auto simp: rle8_iter_def)
qed

lemma rle4_iter_absolute:
  assumes len: "length cb = unat cs" and out: "length A = unat us"
    and esc: "cb ! unat i = 0"
    and b1: "cb ! unat (i + 1) = b" "b \<noteq> 0" "b \<noteq> 1" "b \<noteq> 2"
    and room_i: "unat i + 2 + (unat b + 1) div 2 \<le> unat cs"
    and room_j: "unat j + unat b \<le> unat us"
  shows "\<exists>A'. rle4_iter cb cs w us (i, j, A)
                 = Inr (Continue, i + 1 + 1 + of_nat ((unat b + 1) div 2), j + ucast b, A')"
proof -
  have bound: "unat cs < 2 ^ 32" using unsigned_less [of cs, where 'a = nat] by simp
  have "unat b \<noteq> 0" using b1(2) by (simp add: unat_eq_zero)
  then have half: "0 < (unat b + 1) div 2" by linarith
  have u1: "unat (i + 1) = unat i + 1" using room_i bound half by (simp add: unat_word_ariths)
  have u2: "unat (i + 1 + 1) = unat i + 2" using room_i bound half by (simp add: unat_word_ariths)
  have in1: "unat i + 1 < unat cs" using room_i half by simp
  have p0: "peek cb i = Inr 0"
    using len in1 esc by (simp add: peek_def)
  have p1: "peek cb (i + 1) = Inr b"
    using len in1 b1(1) unfolding peek_def u1 by simp
  have ri: "unat (i + 1 + 1)
              + ((unat (ucast b :: uint32) + 1) div 2 - unat (0 :: uint32) div 2) \<le> unat cs"
    using room_i unfolding u2 by (simp add: unat_ucast_byte)
  have rj: "unat j + (unat (ucast b :: uint32) - unat (0 :: uint32)) \<le> unat us"
    using room_j by (simp add: unat_ucast_byte)
  from rle4_abs_complete [OF len out _ ri rj] obtain A' where
    r: "rle4_abs cb cs us (ucast b) 0 (i + 1 + 1) j A
          = Inr (ucast b, i + 1 + 1 + of_nat (unat b div 2), j + (ucast b - 0), A')"
    by (auto simp: unat_ucast_byte)
  have par: "(ucast b :: uint32) AND 1 \<noteq> 0 \<longleftrightarrow> odd (unat b)"
    using and_1_odd [of "ucast b"] by (simp only: unat_ucast_byte)
  have e: "i + 1 + 1 + of_nat (unat b div 2) + (if odd (unat b) then 1 else 0)
             = i + 1 + 1 + (of_nat ((unat b + 1) div 2) :: uint32)"
  proof (cases "odd (unat b)")
    case True
    then have "(unat b + 1) div 2 = Suc (unat b div 2)" by presburger
    then show ?thesis using True by simp
  next
    case False
    then have "(unat b + 1) div 2 = unat b div 2" by presburger
    then show ?thesis using False by simp
  qed
  have "rle4_iter cb cs w us (i, j, A)
          = Inr (Continue, i + 1 + 1 + of_nat (unat b div 2) + (if odd (unat b) then 1 else 0),
                 j + ucast b, A')"
    using p0 p1 b1 r par by (auto simp: rle4_iter_def)
  then show ?thesis unfolding e by blast
qed

text \<open>
  C6 says that an absolute run is followed by one pad byte when its count is odd, for
  RLE4 as for RLE8, so that the bytes consumed stay even. Evaluated on an RLE4 stream
  with an absolute run of 5 pixels (three bytes \<open>12 34 50\<close>, one pad byte \<open>00\<close>),
  then the run \<open>03 77\<close> and the end of bitmap \<open>00 01\<close>, the source takes the pad
  byte for the first byte of the next opcode and ends with the indices
  \<open>1 2 3 4 5 7 7 0\<close>, not \<open>1 2 3 4 5 7 7 7\<close>.
\<close>

theorem C6_rle4_absolute_run_not_padded:
  "rle_decode 4 [0, 5, 0x12, 0x34, 0x50, 0x00, 0x03, 0x77, 0x00, 0x01] 10 8 8
       [0, 0, 0, 0, 0, 0, 0, 0]
     = Some (Inr (9, 8, [1, 2, 3, 4, 5, 7, 7, 0]))"
  by code_simp

end
